theory Spec2Isabelle
  imports Main "HOL-Library.Sublist" "HOL-Library.List_Lexorder" "HOL-Library.Multiset"
begin

section \<open>Python strings\<close>

text \<open>
  A Python \<open>str\<close> is a sequence of Unicode code points. A code point is modelled as a
  natural number and a string as a list of code points, so that \<open>length\<close>, slicing and
  comparison count what Python counts. \<open>py\<close> turns an ASCII literal into such a string.
\<close>

type_synonym uchar = nat
type_synonym ustring = "uchar list"

definition py :: "string \<Rightarrow> ustring" where
  "py s = map of_char s"

text \<open>
  \<open>str.isspace\<close> on one character, which is also what \<open>\s\<close> matches in a \<open>str\<close> pattern
  of the \<open>re\<close> module and what \<open>str.strip()\<close> removes: TAB..CR, FS..US, SPACE, NEL, NBSP
  and the Unicode space separators.
\<close>

definition isspace :: "uchar \<Rightarrow> bool" where
  "isspace c \<longleftrightarrow>
     (9 \<le> c \<and> c \<le> 13) \<or> (28 \<le> c \<and> c \<le> 32) \<or> c = 133 \<or> c = 160 \<or> c = 5760 \<or>
     (8192 \<le> c \<and> c \<le> 8202) \<or> c = 8232 \<or> c = 8233 \<or> c = 8239 \<or> c = 8287 \<or> c = 12288"

text \<open>The character class \<open>[A-Z]\<close>.\<close>

definition upperAZ :: "uchar \<Rightarrow> bool" where
  "upperAZ c \<longleftrightarrow> 65 \<le> c \<and> c \<le> 90"

text \<open>The line feed \<open>\n\<close> and the form feed \<open>\f\<close>.\<close>

abbreviation LF :: uchar where "LF \<equiv> 10"
abbreviation FF :: uchar where "FF \<equiv> 12"

definition lstrip :: "ustring \<Rightarrow> ustring" where
  "lstrip s = dropWhile isspace s"

definition rstrip :: "ustring \<Rightarrow> ustring" where
  "rstrip s = rev (dropWhile isspace (rev s))"

text \<open>\<open>s.strip()\<close>\<close>

definition strip :: "ustring \<Rightarrow> ustring" where
  "strip s = rstrip (lstrip s)"

section \<open>The regular expressions of \<open>factiva_to_df\<close>\<close>

text \<open>
  \<open>regex = '(\s[A-Z]{2,3}\n)'\<close>. \<open>match_tag s\<close> is \<open>re.match(regex, s)\<close>: the length of the
  match at the start of \<open>s\<close>, if there is one. The quantifier is greedy: three letters
  are tried first, then two.
\<close>

fun tag3 :: "ustring \<Rightarrow> bool" where
  "tag3 (w # a # b # c # n # _) \<longleftrightarrow> isspace w \<and> upperAZ a \<and> upperAZ b \<and> upperAZ c \<and> n = LF"
| "tag3 _ \<longleftrightarrow> False"

fun tag2 :: "ustring \<Rightarrow> bool" where
  "tag2 (w # a # b # n # _) \<longleftrightarrow> isspace w \<and> upperAZ a \<and> upperAZ b \<and> n = LF"
| "tag2 _ \<longleftrightarrow> False"

definition match_tag :: "ustring \<Rightarrow> nat option" where
  "match_tag s = (if tag3 s then Some 5 else if tag2 s then Some 4 else None)"

text \<open>\<open>re.match('^HD\s', s)\<close> and \<open>re.match('^SE\s', s)\<close>, as truth values.\<close>

fun match_HD :: "ustring \<Rightarrow> bool" where
  "match_HD (h # d # w # _) \<longleftrightarrow> h = 72 \<and> d = 68 \<and> isspace w"
| "match_HD _ \<longleftrightarrow> False"

fun match_SE :: "ustring \<Rightarrow> bool" where
  "match_SE (s # e # w # _) \<longleftrightarrow> s = 83 \<and> e = 69 \<and> isspace w"
| "match_SE _ \<longleftrightarrow> False"

text \<open>
  \<open>re.split\<close> scans from the left for the next match; the text before it is one
  element of the result; with a capturing group, the matched text is the next one;
  the scan resumes after the match; what is left at the end is the last element.
  \<open>cons_first c\<close> puts a character that starts no match in front of the text element
  being collected.
\<close>

fun cons_first :: "'a \<Rightarrow> 'a list list \<Rightarrow> 'a list list" where
  "cons_first c [] = [[c]]"
| "cons_first c (t # ts) = (c # t) # ts"

text \<open>\<open>re.split(regex, doc)\<close>: the pattern is one capturing group, so the tags are kept.\<close>

fun split_tag :: "ustring \<Rightarrow> ustring list" where
  "split_tag [] = [[]]"
| "split_tag (c # cs) =
     (case match_tag (c # cs) of
        Some n \<Rightarrow> [] # take n (c # cs) # split_tag (drop (n - 1) cs)
      | None \<Rightarrow> cons_first c (split_tag cs))"

text \<open>
  \<open>re.split(p, s)\<close> for a pattern \<open>p\<close> that is a non-empty literal without a group
  (\<open>'\nSearch Summary\n'\<close> and \<open>sep\<close>): the matched text is dropped.
\<close>

fun split_lit :: "ustring \<Rightarrow> ustring \<Rightarrow> ustring list" where
  "split_lit p [] = [[]]"
| "split_lit p (c # cs) =
     (if prefix p (c # cs) then [] # split_lit p (drop (length p - 1) cs)
      else cons_first c (split_lit p cs))"

section \<open>The notebook's configuration\<close>

text \<open>\<open>sep = '\f'\<close>\<close>

definition sep :: ustring where
  "sep = [FF]"

text \<open>
  \<open>fieldnames = ['SE', 'HD', 'WC', 'PD', 'SN', 'SC', 'LA', 'CY', 'NS', 'CO', 'RE', 'PUB',
  'AN', 'LP', 'TD']\<close>. The list is the user's choice, so the functions below take it
  as the argument \<open>fn\<close>.
\<close>

definition fieldnames :: "ustring list" where
  "fieldnames = map py [''SE'', ''HD'', ''WC'', ''PD'', ''SN'', ''SC'', ''LA'', ''CY'', ''NS'',
     ''CO'', ''RE'', ''PUB'', ''AN'', ''LP'', ''TD'']"

text \<open>\<open>search_sum = '\nSearch Summary\n'\<close>\<close>

definition search_sum :: ustring where
  "search_sum = LF # py ''Search Summary'' @ [LF]"

section \<open>The walk over the segments of one article\<close>

text \<open>
  The loop \<open>for split in splits\<close> carries \<open>key\<close>, \<open>value\<close> and \<open>metadata_dict\<close>.
  \<open>step\<close> is one iteration: the four branches in the order of the source, then the
  write guarded by \<open>key in fieldnames\<close>.
\<close>

type_synonym pstate = "ustring \<times> ustring \<times> (ustring \<rightharpoonup> ustring)"

fun classify :: "ustring \<times> ustring \<Rightarrow> ustring \<Rightarrow> ustring \<times> ustring" where
  "classify (key, val) split =
     (if match_HD split then (py ''HD'', strip (drop 3 split))
      else if match_SE split then (py ''SE'', strip (drop 3 split))
      else if match_tag split \<noteq> None then (strip split, val)
      else (key, strip split))"

fun step :: "ustring list \<Rightarrow> pstate \<Rightarrow> ustring \<Rightarrow> pstate" where
  "step fn (key, val, d) split =
     (case classify (key, val) split of
        (key', val') \<Rightarrow> (key', val', if key' \<in> set fn then d(key' \<mapsto> val') else d))"

definition walk :: "ustring list \<Rightarrow> pstate \<Rightarrow> ustring list \<Rightarrow> pstate" where
  "walk fn st splits = foldl (step fn) st splits"

text \<open>
  The body of \<open>for doc in docs\<close> after the empty documents are skipped: the record
  built from an article that is already stripped.
\<close>

definition parse_doc :: "ustring list \<Rightarrow> ustring \<Rightarrow> (ustring \<rightharpoonup> ustring)" where
  "parse_doc fn doc = snd (snd (walk fn ([], [], Map.empty) (split_tag doc)))"

text \<open>
  One raw article: \<open>doc = doc.strip()\<close>, \<open>continue\<close> when it is empty (no record),
  the record otherwise.
\<close>

definition parse_block :: "ustring list \<Rightarrow> ustring \<Rightarrow> (ustring \<rightharpoonup> ustring) option" where
  "parse_block fn blk =
     (let doc = strip blk in if doc = [] then None else Some (parse_doc fn doc))"

section \<open>The table and the loops over documents and files\<close>

text \<open>
  The exceptions of the notebook. Outside the parser: \<open>open\<close> and \<open>read\<close> (a missing or
  unreadable file, bytes that are not UTF-8) and the index \<open>drop_search_sum[0]\<close>. In
  the parser: \<open>re.match\<close> and a slice on \<open>None\<close> raise \<open>TypeError\<close>, \<open>None.strip()\<close> raises
  \<open>AttributeError\<close> (used in the section on the loop as Python runs it).
\<close>

datatype py_error = IndexError | OSError | UnicodeDecodeError | TypeError | AttributeError

text \<open>
  The pandas table: its column labels and its rows, a cell being a string or
  missing (\<open>NaN\<close>). \<open>pd.DataFrame(columns = fieldnames)\<close> has the columns and no row.
\<close>

record dataframe =
  columns :: "ustring list"
  rows :: "ustring option list list"

definition DataFrame :: "ustring list \<Rightarrow> dataframe" where
  "DataFrame cols = \<lparr>columns = cols, rows = []\<rparr>"

text \<open>
  \<open>df.loc[len(df)] = metadata_dict\<close>: the row labels are \<open>0, ..., len(df) - 1\<close>, so the
  label is new and pandas appends the row \<open>Series(metadata_dict, index=df.columns)\<close>:
  under each column the value of the dictionary at that label, missing where the
  dictionary has no such key. (This is for a table that has columns, that is for a
  non-empty \<open>fieldnames\<close>: on a table without any column pandas 1 and 2 raise
  \<open>ValueError\<close> here, which the model leaves out.)
\<close>

definition loc_append :: "dataframe \<Rightarrow> (ustring \<rightharpoonup> ustring) \<Rightarrow> dataframe" where
  "loc_append df d = df\<lparr>rows := rows df @ [map d (columns df)]\<rparr>"

text \<open>The loop \<open>for doc in docs\<close>; \<open>parse_block\<close> is \<open>None\<close> where the source says \<open>continue\<close>.\<close>

fun loop_docs :: "ustring list \<Rightarrow> dataframe \<Rightarrow> ustring list \<Rightarrow> dataframe" where
  "loop_docs fn df [] = df"
| "loop_docs fn df (doc # docs) =
     (case parse_block fn doc of
        None \<Rightarrow> loop_docs fn df docs
      | Some d \<Rightarrow> loop_docs fn (loc_append df d) docs)"

text \<open>
  From the text of one file to its documents: \<open>drop_search_sum = re.split(search_sum,
  text)\<close>, \<open>text = drop_search_sum[0]\<close>, \<open>docs = re.split(sep, text)\<close>.
\<close>

definition load_text :: "ustring \<Rightarrow> py_error + ustring list" where
  "load_text text =
     (case split_lit search_sum text of
        [] \<Rightarrow> Inl IndexError
      | t # _ \<Rightarrow> Inr (split_lit sep t))"

text \<open>The body of \<open>for filename in files_all\<close> once the file is read.\<close>

definition load_file :: "ustring list \<Rightarrow> dataframe \<Rightarrow> ustring \<Rightarrow> py_error + dataframe" where
  "load_file fn df text =
     (case load_text text of
        Inl e \<Rightarrow> Inl e
      | Inr docs \<Rightarrow> Inr (loop_docs fn df docs))"

text \<open>
  The loop \<open>for filename in files_all\<close>. The file system is the argument \<open>read_file\<close>:
  what \<open>open(filename, 'r', encoding='utf-8')\<close> and \<open>in_file.read()\<close> give for a path, the
  decoded text or the exception. An exception ends the run. (The \<open>print\<close> of
  \<open>file_id\<close> is output only and is left out.)
\<close>

fun loop_files ::
  "ustring list \<Rightarrow> (ustring \<Rightarrow> py_error + ustring) \<Rightarrow> dataframe \<Rightarrow> ustring list \<Rightarrow> py_error + dataframe"
where
  "loop_files fn read_file df [] = Inr df"
| "loop_files fn read_file df (filename # files) =
     (case read_file filename of
        Inl e \<Rightarrow> Inl e
      | Inr text \<Rightarrow>
          (case load_file fn df text of
             Inl e \<Rightarrow> Inl e
           | Inr df' \<Rightarrow> loop_files fn read_file df' files))"

text \<open>
  \<open>factiva_to_df(path)\<close>. \<open>glob\<close> stands for \<open>glob.iglob\<close> on the file system of the run:
  the paths that match a pattern, in the order of the operating system. \<open>sorted\<close>
  orders strings by code points, which is the order of lists of code points.
\<close>

definition factiva_to_df ::
  "ustring list \<Rightarrow> (ustring \<Rightarrow> ustring list) \<Rightarrow> (ustring \<Rightarrow> py_error + ustring) \<Rightarrow> ustring \<Rightarrow>
     py_error + dataframe"
where
  "factiva_to_df fn glob read_file path =
     (let df = DataFrame fn;
          files_all = sort (glob (path @ py ''*.txt''))
      in loop_files fn read_file df files_all)"

section \<open>The file system and \<open>glob\<close>\<close>

text \<open>
  \<open>glob.iglob\<close> is library code; it is modelled here after CPython's \<open>glob\<close>, \<open>fnmatch\<close>
  and \<open>posixpath\<close> modules, on a POSIX system, for the patterns that the loader
  builds. The characters \<open>/\<close> and \<open>*\<close>:
\<close>

abbreviation SLASH :: uchar where "SLASH \<equiv> 47"
abbreviation STAR :: uchar where "STAR \<equiv> 42"

text \<open>
  The file system as far as \<open>glob\<close> reads it: the directories with the names of their
  entries, in the order of \<open>os.scandir\<close>. A path that is no directory has no entries
  (\<open>glob\<close> catches the \<open>OSError\<close>).
\<close>

type_synonym filesystem = "(ustring \<times> ustring list) list"

definition listdir :: "filesystem \<Rightarrow> ustring \<Rightarrow> ustring list" where
  "listdir fs d = (case map_of fs d of None \<Rightarrow> [] | Some names \<Rightarrow> names)"

text \<open>\<open>glob.has_magic\<close>: one of \<open>*\<close>, \<open>?\<close>, \<open>[\<close> occurs.\<close>

definition has_magic :: "ustring \<Rightarrow> bool" where
  "has_magic s \<longleftrightarrow> (\<exists>c\<in>set s. c = STAR \<or> c = 63 \<or> c = 91)"

text \<open>
  \<open>os.path.split\<close>: the part up to the last slash, without its trailing slashes unless
  it consists of slashes only, and the part after the last slash.
\<close>

definition posix_split :: "ustring \<Rightarrow> ustring \<times> ustring" where
  "posix_split p =
     (let tail = rev (takeWhile (\<lambda>c. c \<noteq> SLASH) (rev p));
          head = rev (dropWhile (\<lambda>c. c \<noteq> SLASH) (rev p))
      in (if head \<noteq> [] \<and> (\<exists>c\<in>set head. c \<noteq> SLASH)
          then rev (dropWhile (\<lambda>c. c = SLASH) (rev head)) else head,
          tail))"

text \<open>\<open>os.path.join(a, b)\<close>\<close>

definition posix_join :: "ustring \<Rightarrow> ustring \<Rightarrow> ustring" where
  "posix_join a b =
     (if b \<noteq> [] \<and> hd b = SLASH then b
      else if a = [] \<or> last a = SLASH then a @ b
      else a @ SLASH # b)"

text \<open>\<open>glob._ishidden\<close>: the name begins with a dot.\<close>

definition ishidden :: "ustring \<Rightarrow> bool" where
  "ishidden s \<longleftrightarrow> s \<noteq> [] \<and> hd s = 46"

text \<open>
  \<open>fnmatch\<close> of a name against a pattern (the first argument) made of \<open>*\<close> and
  literal characters: \<open>*\<close> stands for any characters, and the whole name must match.
\<close>

fun fnmatch :: "ustring \<Rightarrow> ustring \<Rightarrow> bool" where
  "fnmatch [] [] \<longleftrightarrow> True"
| "fnmatch [] (c # cs) \<longleftrightarrow> False"
| "fnmatch (p # ps) [] \<longleftrightarrow> p = STAR \<and> fnmatch ps []"
| "fnmatch (p # ps) (c # cs) \<longleftrightarrow>
     (if p = STAR then fnmatch ps (c # cs) \<or> fnmatch (p # ps) cs else p = c \<and> fnmatch ps cs)"

text \<open>
  \<open>glob._glob1\<close>: the entries of \<open>dirname\<close> (of the current directory when it is empty)
  that match the pattern; hidden entries only when the pattern is hidden too.
\<close>

definition glob1 :: "filesystem \<Rightarrow> ustring \<Rightarrow> ustring \<Rightarrow> ustring list" where
  "glob1 fs dirname pattern =
     (let names = listdir fs (if dirname = [] then py ''.'' else dirname);
          names = (if ishidden pattern then names else filter (\<lambda>x. \<not> ishidden x) names)
      in filter (fnmatch pattern) names)"

text \<open>
  \<open>glob.iglob(pathname)\<close> for a pathname whose last component holds \<open>*\<close> and no other
  special character and whose directory part holds none: the matching entries of
  that directory, joined to it. \<open>None\<close> stands for the patterns left out here
  (wildcards in the directory part, \<open>?\<close> and \<open>[\<close>).
\<close>

definition iglob :: "filesystem \<Rightarrow> ustring \<Rightarrow> ustring list option" where
  "iglob fs pathname =
     (case posix_split pathname of
        (dirname, basename) \<Rightarrow>
          if has_magic dirname \<or> 63 \<in> set basename \<or> 91 \<in> set basename \<or> STAR \<notin> set basename
          then None
          else if dirname = [] then Some (glob1 fs dirname basename)
          else Some (map (posix_join dirname) (glob1 fs dirname basename)))"

section \<open>The loop as Python runs it\<close>

text \<open>
  The sections above model the three patterns of the notebook by hand. This one
  models how the \<open>re\<close> module runs a pattern, for the constructs these patterns use,
  and the loop with the values and exceptions of Python: \<open>re.split\<close> returns \<open>None\<close> in
  place of a group that took no part in a match, and \<open>re.match\<close>, the slice and
  \<open>strip\<close> raise on \<open>None\<close>.

  A pattern: a literal character, a character class, \<open>^\<close>, a sequence, the greedy
  repetition \<open>r{lo,hi}\<close>, and the capturing group (one group at most).
\<close>

datatype re =
    Lit uchar
  | Cls "uchar \<Rightarrow> bool"
  | Bol
  | Seq re re
  | Rep nat nat re
  | Grp re

text \<open>What the group holds: \<open>None\<close> as long as it took no part in the match.\<close>

type_synonym group = "ustring option"

text \<open>
  The backtracking matcher: \<open>ms L r s g\<close> lists, in the order in which the engine
  tries them, the ways to match \<open>r\<close> at the start of \<open>s\<close>, each as the rest of the
  subject and the group. \<open>L\<close> is the length of the whole subject, so that \<open>^\<close> can tell
  its start. A greedy repetition tries one more round first and stops only when
  that fails.
\<close>

primrec rep_ms ::
  "(ustring \<Rightarrow> group \<Rightarrow> (ustring \<times> group) list) \<Rightarrow> nat \<Rightarrow> nat \<Rightarrow> ustring \<Rightarrow> group \<Rightarrow> (ustring \<times> group) list"
where
  "rep_ms f lo 0 s g = (if lo = 0 then [(s, g)] else [])"
| "rep_ms f lo (Suc hi) s g =
     concat (map (\<lambda>(s', g'). rep_ms f (lo - 1) hi s' g') (f s g)) @ (if lo = 0 then [(s, g)] else [])"

primrec ms :: "nat \<Rightarrow> re \<Rightarrow> ustring \<Rightarrow> group \<Rightarrow> (ustring \<times> group) list" where
  "ms L (Lit a) s g = (case s of [] \<Rightarrow> [] | x # xs \<Rightarrow> if x = a then [(xs, g)] else [])"
| "ms L (Cls P) s g = (case s of [] \<Rightarrow> [] | x # xs \<Rightarrow> if P x then [(xs, g)] else [])"
| "ms L Bol s g = (if length s = L then [(s, g)] else [])"
| "ms L (Seq a b) s g = concat (map (\<lambda>(s', g'). ms L b s' g') (ms L a s g))"
| "ms L (Rep lo hi r) s g = rep_ms (ms L r) lo hi s g"
| "ms L (Grp r) s g = map (\<lambda>(s', g'). (s', Some (take (length s - length s') s))) (ms L r s g)"

text \<open>
  \<open>re.match(r, s)\<close>: the first way to match, as the length of the match and the group;
  \<open>None\<close> when there is none.
\<close>

definition re_match_at :: "nat \<Rightarrow> re \<Rightarrow> ustring \<Rightarrow> (nat \<times> group) option" where
  "re_match_at L r s =
     (case ms L r s None of [] \<Rightarrow> None | (s', g) # _ \<Rightarrow> Some (length s - length s', g))"

definition re_match :: "re \<Rightarrow> ustring \<Rightarrow> (nat \<times> group) option" where
  "re_match r s = re_match_at (length s) r s"

text \<open>
  \<open>re.split(r, s)\<close> for a pattern with one group: the text before each match, then the
  group of the match (\<open>None\<close> when it took no part), and the text after the last
  match. The outer \<open>None\<close> stands for a pattern that matches the empty string, which
  this model leaves out.
\<close>

fun cons_text :: "uchar \<Rightarrow> ustring option list \<Rightarrow> ustring option list" where
  "cons_text c (Some t # ts) = Some (c # t) # ts"
| "cons_text c ts = Some [c] # ts"

fun re_split_from :: "nat \<Rightarrow> re \<Rightarrow> ustring \<Rightarrow> ustring option list option" where
  "re_split_from L r [] =
     (case re_match_at L r [] of None \<Rightarrow> Some [Some []] | Some m \<Rightarrow> None)"
| "re_split_from L r (c # cs) =
     (case re_match_at L r (c # cs) of
        None \<Rightarrow> map_option (cons_text c) (re_split_from L r cs)
      | Some m \<Rightarrow>
          if fst m = 0 then None
          else map_option (\<lambda>rest. Some [] # snd m # rest) (re_split_from L r (drop (fst m - 1) cs)))"

definition re_split :: "re \<Rightarrow> ustring \<Rightarrow> ustring option list option" where
  "re_split r s = re_split_from (length s) r s"

text \<open>
  \<open>regex = '(\s[A-Z]{2,3}\n)'\<close> and the patterns \<open>'^HD\s'\<close> and \<open>'^SE\s'\<close> of the loop.
\<close>

definition regex :: re where
  "regex = Grp (Seq (Cls isspace) (Seq (Rep 2 3 (Cls upperAZ)) (Lit LF)))"

definition regex_HD :: re where
  "regex_HD = Seq Bol (Seq (Lit 72) (Seq (Lit 68) (Cls isspace)))"

definition regex_SE :: re where
  "regex_SE = Seq Bol (Seq (Lit 83) (Seq (Lit 69) (Cls isspace)))"

text \<open>
  The operations of the loop body on a segment that is a string or \<open>None\<close>, with the
  exception that Python raises on \<open>None\<close>; \<open>bind\<close> passes a value on and stops at an
  exception.
\<close>

definition bind :: "py_error + 'a \<Rightarrow> ('a \<Rightarrow> py_error + 'b) \<Rightarrow> py_error + 'b" where
  "bind m f = (case m of Inl e \<Rightarrow> Inl e | Inr x \<Rightarrow> f x)"

definition re_match_py :: "re \<Rightarrow> ustring option \<Rightarrow> py_error + bool" where
  "re_match_py r split =
     (case split of None \<Rightarrow> Inl TypeError | Some s \<Rightarrow> Inr (re_match r s \<noteq> None))"

definition slice_from :: "nat \<Rightarrow> ustring option \<Rightarrow> py_error + ustring" where
  "slice_from i split = (case split of None \<Rightarrow> Inl TypeError | Some s \<Rightarrow> Inr (drop i s))"

definition strip_py :: "ustring option \<Rightarrow> py_error + ustring" where
  "strip_py split = (case split of None \<Rightarrow> Inl AttributeError | Some s \<Rightarrow> Inr (strip s))"

text \<open>
  The loop \<open>for split in splits\<close> again, on the result of \<open>re.split\<close> and with every call
  as the source makes it. \<open>parse_doc_re r\<close> is the parser with \<open>r\<close> as \<open>regex\<close>.
\<close>

fun classify_py ::
  "re \<Rightarrow> ustring \<times> ustring \<Rightarrow> ustring option \<Rightarrow> py_error + ustring \<times> ustring" where
  "classify_py r (key, val) split =
     bind (re_match_py regex_HD split) (\<lambda>hd_found.
       if hd_found then bind (slice_from 3 split) (\<lambda>s. Inr (py ''HD'', strip s))
       else bind (re_match_py regex_SE split) (\<lambda>se_found.
         if se_found then bind (slice_from 3 split) (\<lambda>s. Inr (py ''SE'', strip s))
         else bind (re_match_py r split) (\<lambda>tag_found.
           if tag_found then bind (strip_py split) (\<lambda>k. Inr (k, val))
           else bind (strip_py split) (\<lambda>v. Inr (key, v)))))"

fun step_py :: "re \<Rightarrow> ustring list \<Rightarrow> pstate \<Rightarrow> ustring option \<Rightarrow> py_error + pstate" where
  "step_py r fn (key, val, d) split =
     bind (classify_py r (key, val) split) (\<lambda>(key', val').
       Inr (key', val', if key' \<in> set fn then d(key' \<mapsto> val') else d))"

fun loop_splits :: "re \<Rightarrow> ustring list \<Rightarrow> pstate \<Rightarrow> ustring option list \<Rightarrow> py_error + pstate" where
  "loop_splits r fn st [] = Inr st"
| "loop_splits r fn st (split # splits) =
     bind (step_py r fn st split) (\<lambda>st'. loop_splits r fn st' splits)"

definition parse_doc_re ::
  "re \<Rightarrow> ustring list \<Rightarrow> ustring \<Rightarrow> (py_error + (ustring \<rightharpoonup> ustring)) option" where
  "parse_doc_re r fn doc =
     (case re_split r doc of
        None \<Rightarrow> None
      | Some splits \<Rightarrow>
          Some (bind (loop_splits r fn ([], [], Map.empty) splits) (\<lambda>st. Inr (snd (snd st)))))"

section \<open>Notions used to state the properties\<close>

text \<open>
  \<open>has_tag s\<close>: the tag-boundary pattern (a whitespace character, two or three
  letters of \<open>[A-Z]\<close>, a line feed) occurs somewhere in \<open>s\<close>.
\<close>

fun has_tag :: "ustring \<Rightarrow> bool" where
  "has_tag [] \<longleftrightarrow> False"
| "has_tag (c # cs) \<longleftrightarrow> match_tag (c # cs) \<noteq> None \<or> has_tag cs"

text \<open>
  \<open>seg_key s\<close>: the key that the classification of the segment \<open>s\<close> assigns, if it
  assigns one (the three first branches of the loop body); \<open>None\<close> for the last
  branch, a free-text segment, which leaves the key as it is.
\<close>

definition seg_key :: "ustring \<Rightarrow> ustring option" where
  "seg_key s =
     (if match_HD s then Some (py ''HD'')
      else if match_SE s then Some (py ''SE'')
      else if match_tag s \<noteq> None then Some (strip s)
      else None)"

text \<open>
  The shape of the result of \<open>re.split\<close>: text, tag, text, ..., tag, text, where no
  text contains the pattern and every tag is one whole match.
\<close>

fun alternating :: "ustring list \<Rightarrow> bool" where
  "alternating [t] \<longleftrightarrow> \<not> has_tag t"
| "alternating (t # d # rest) \<longleftrightarrow> \<not> has_tag t \<and> match_tag d = Some (length d) \<and> alternating rest"
| "alternating [] \<longleftrightarrow> False"

text \<open>The record held by a state of the walk, and the state before the first segment.\<close>

abbreviation record_of :: "pstate \<Rightarrow> (ustring \<rightharpoonup> ustring)" where
  "record_of st \<equiv> snd (snd st)"

abbreviation init :: pstate where
  "init \<equiv> ([], [], Map.empty)"

text \<open>A field code: two or three letters of \<open>[A-Z]\<close>.\<close>

definition is_code :: "ustring \<Rightarrow> bool" where
  "is_code t \<longleftrightarrow> (length t = 2 \<or> length t = 3) \<and> list_all upperAZ t"

text \<open>
  The generic layout: every tag on a line of its own, after the whitespace
  character \<open>w\<close> and before a line feed, its value after it. \<open>assemble w ps\<close> is the
  block of the pairs \<open>ps\<close>, \<open>segments w ps\<close> the tag lines and values one by one.
\<close>

definition tag_line :: "uchar \<Rightarrow> ustring \<Rightarrow> ustring" where
  "tag_line w t = w # t @ [LF]"

fun assemble :: "uchar \<Rightarrow> (ustring \<times> ustring) list \<Rightarrow> ustring" where
  "assemble w [] = []"
| "assemble w ((t, v) # ps) = tag_line w t @ v @ assemble w ps"

text \<open>
  A value of the round trip: it holds a character that is no whitespace, the
  pattern occurs neither in it nor where it meets the line feed before it or the
  whitespace character after it, and it does not begin with the inline \<open>HD\<close> or \<open>SE\<close>
  form.
\<close>

definition plain_value :: "uchar \<Rightarrow> ustring \<Rightarrow> bool" where
  "plain_value w v \<longleftrightarrow>
     strip v \<noteq> [] \<and> \<not> has_tag (LF # v @ [w]) \<and> \<not> match_HD v \<and> \<not> match_SE v"

fun segments :: "uchar \<Rightarrow> (ustring \<times> ustring) list \<Rightarrow> ustring list" where
  "segments w [] = []"
| "segments w ((t, v) # ps) = tag_line w t # v # segments w ps"

text \<open>
  The pairs as \<open>doc.strip()\<close> leaves them (the last value loses its trailing
  whitespace), a pair with its value trimmed, the write of a pair into a record,
  and the condition under which the text \<open>v\<close> followed by the block of \<open>ps\<close> splits
  at the tag lines and nowhere else.
\<close>

definition rstrip_last :: "(ustring \<times> ustring) list \<Rightarrow> (ustring \<times> ustring) list" where
  "rstrip_last ps = butlast ps @ [(fst (last ps), rstrip (snd (last ps)))]"

definition trimmed :: "ustring \<times> ustring \<Rightarrow> ustring \<times> ustring" where
  "trimmed p = (fst p, strip (snd p))"

definition put_trimmed :: "(ustring \<rightharpoonup> ustring) \<Rightarrow> ustring \<times> ustring \<Rightarrow> (ustring \<rightharpoonup> ustring)" where
  "put_trimmed m p = m(fst p \<mapsto> strip (snd p))"

fun joins_ok :: "uchar \<Rightarrow> ustring \<Rightarrow> (ustring \<times> ustring) list \<Rightarrow> bool" where
  "joins_ok w v [] \<longleftrightarrow> \<not> has_tag v"
| "joins_ok w v ((t, v') # ps) \<longleftrightarrow> \<not> has_tag (v @ [w]) \<and> is_code t \<and> joins_ok w v' ps"

text \<open>
  A table whose columns are the configured codes and whose rows are records laid
  out along them.
\<close>

definition record_rows :: "ustring list \<Rightarrow> dataframe \<Rightarrow> bool" where
  "record_rows fn df \<longleftrightarrow>
     columns df = fn \<and> (\<forall>row\<in>set (rows df). \<exists>doc. row = map (parse_doc fn doc) fn)"

text \<open>
  The rows that the text of one file, and the file of one name, add to the table.
  (Where the text cannot be read the run ends with the exception and no row is
  added.)
\<close>

definition text_rows :: "ustring list \<Rightarrow> ustring \<Rightarrow> ustring option list list" where
  "text_rows fn text =
     (case load_text text of
        Inl e \<Rightarrow> []
      | Inr docs \<Rightarrow> map (\<lambda>doc. map (parse_doc fn (strip doc)) fn) (filter (\<lambda>doc. strip doc \<noteq> []) docs))"

definition file_rows ::
  "ustring list \<Rightarrow> (ustring \<Rightarrow> py_error + ustring) \<Rightarrow> ustring \<Rightarrow> ustring option list list" where
  "file_rows fn read_file filename =
     (case read_file filename of Inl e \<Rightarrow> [] | Inr text \<Rightarrow> text_rows fn text)"

text \<open>
  An example: the current directory holds the directory \<open>rtfs\<close> and a file
  \<open>rtfs_old.txt\<close>; \<open>rtfs\<close> holds \<open>b.txt\<close>, \<open>.x.txt\<close>, \<open>a.txt\<close> and \<open>notes.rtf\<close>.
\<close>

definition example_fs :: filesystem where
  "example_fs =
     [(py ''.'', [py ''rtfs'', py ''rtfs_old.txt'']),
      (py ''rtfs'', [py ''b.txt'', py ''.x.txt'', py ''a.txt'', py ''notes.rtf''])]"

section \<open>Basic facts about the patterns\<close>

lemma isspace_LF [simp]: "isspace LF"
  by (simp add: isspace_def)

lemma upperAZ_not_space: "upperAZ c \<Longrightarrow> \<not> isspace c"
  by (auto simp: upperAZ_def isspace_def)

lemma tag3_iff:
  "tag3 s \<longleftrightarrow> (\<exists>w a b c r. s = w # a # b # c # LF # r \<and> isspace w \<and> upperAZ a \<and> upperAZ b \<and> upperAZ c)"
  by (cases s rule: tag3.cases) auto

lemma tag2_iff:
  "tag2 s \<longleftrightarrow> (\<exists>w a b r. s = w # a # b # LF # r \<and> isspace w \<and> upperAZ a \<and> upperAZ b)"
  by (cases s rule: tag2.cases) auto

lemma match_HD_iff: "match_HD s \<longleftrightarrow> (\<exists>w r. s = 72 # 68 # w # r \<and> isspace w)"
  by (cases s rule: match_HD.cases) auto

lemma match_SE_iff: "match_SE s \<longleftrightarrow> (\<exists>w r. s = 83 # 69 # w # r \<and> isspace w)"
  by (cases s rule: match_SE.cases) auto

lemma tag3_append: "tag3 s \<Longrightarrow> tag3 (s @ t)"
  by (auto simp: tag3_iff)

lemma tag2_append: "tag2 s \<Longrightarrow> tag2 (s @ t)"
  by (auto simp: tag2_iff)

lemma match_tag_append: "match_tag s \<noteq> None \<Longrightarrow> match_tag (s @ t) \<noteq> None"
  by (auto simp: match_tag_def tag3_append tag2_append split: if_splits)

lemma has_tag_append_right: "has_tag s \<Longrightarrow> has_tag (s @ t)"
  by (induction s) (use match_tag_append in force)+

lemma has_tag_append_left: "has_tag t \<Longrightarrow> has_tag (s @ t)"
  by (induction s) auto

lemma strip_sublist: "\<exists>a b. s = a @ strip s @ b"
proof -
  have 1: "s = takeWhile isspace s @ lstrip s"
    by (simp add: lstrip_def)
  have "rev (lstrip s) = takeWhile isspace (rev (lstrip s)) @ dropWhile isspace (rev (lstrip s))"
    by simp
  then have "lstrip s = strip s @ rev (takeWhile isspace (rev (lstrip s)))"
    unfolding strip_def rstrip_def by (metis rev_append rev_rev_ident)
  with 1 show ?thesis by metis
qed

lemma has_tag_strip: "has_tag (strip s) \<Longrightarrow> has_tag s"
  using strip_sublist [of s] has_tag_append_left has_tag_append_right by metis

lemma split_tag_no_tag: "\<not> has_tag s \<Longrightarrow> split_tag s = [s]"
  by (induction s) auto

lemma match_tag_None_if_no_tag: "\<not> has_tag s \<Longrightarrow> match_tag s = None"
  by (cases s) (auto simp: match_tag_def)

section \<open>The walk and the shape of the split\<close>

lemma walk_Nil [simp]: "walk fn st [] = st"
  by (simp add: walk_def)

lemma walk_Cons [simp]: "walk fn st (s # segs) = walk fn (step fn st s) segs"
  by (simp add: walk_def)

lemma walk_append: "walk fn st (xs @ ys) = walk fn (walk fn st xs) ys"
  by (simp add: walk_def)

lemma step_key:
  "fst (step fn (k, v, d) s) = (case seg_key s of None \<Rightarrow> k | Some c \<Rightarrow> c)"
  by (simp add: seg_key_def)

lemma step_record_other:
  "fst (step fn (k, v, d) s) \<noteq> c \<Longrightarrow> record_of (step fn (k, v, d) s) c = d c"
  by (auto split: if_splits)

declare step.simps [simp del] classify.simps [simp del]

lemma walk_keeps:
  "\<forall>s\<in>set segs. seg_key s \<noteq> Some c \<Longrightarrow> k \<noteq> c \<Longrightarrow>
   record_of (walk fn (k, v, d) segs) c = d c"
proof (induction segs arbitrary: k v d)
  case Nil
  then show ?case by simp
next
  case (Cons s segs)
  obtain k' v' d' where st: "step fn (k, v, d) s = (k', v', d')"
    by (cases "step fn (k, v, d) s") auto
  have k': "k' = (case seg_key s of None \<Rightarrow> k | Some c \<Rightarrow> c)"
    using step_key [of fn k v d s] st by simp
  with Cons.prems have ne: "k' \<noteq> c"
    by (auto split: option.splits)
  then have "d' c = d c"
    using step_record_other [of fn k v d s c] st by simp
  moreover have "record_of (walk fn (k', v', d') segs) c = d' c"
    using Cons.IH [OF _ ne] Cons.prems(1) by simp
  ultimately show ?case
    by (simp add: st)
qed

lemma walk_keeps_after_tag:
  assumes "\<forall>s\<in>set segs. seg_key s \<noteq> Some c" and "segs = [] \<or> seg_key (hd segs) \<noteq> None"
  shows "record_of (walk fn (k, v, d) segs) c = d c"
proof (cases segs)
  case Nil
  then show ?thesis by simp
next
  case (Cons s rest)
  obtain k' v' d' where st: "step fn (k, v, d) s = (k', v', d')"
    by (cases "step fn (k, v, d) s") auto
  from assms Cons obtain c' where c': "seg_key s = Some c'" "c' \<noteq> c"
    by auto
  then have k': "k' = c'"
    using step_key [of fn k v d s] st by simp
  then have "d' c = d c"
    using step_record_other [of fn k v d s c] st c' by simp
  moreover have "record_of (walk fn (k', v', d') rest) c = d' c"
    using walk_keeps [of rest c k' fn v' d'] assms(1) Cons k' c' by simp
  ultimately show ?thesis
    by (simp add: Cons st)
qed

lemma not_isspace_H_S [simp]: "\<not> isspace 72" "\<not> isspace 83"
  by (simp_all add: isspace_def)

lemma match_tag_isspace_hd: "match_tag s \<noteq> None \<Longrightarrow> s \<noteq> [] \<and> isspace (hd s)"
  by (auto simp: match_tag_def tag3_iff tag2_iff split: if_splits)

lemma match_tag_not_inline: "match_tag s \<noteq> None \<Longrightarrow> \<not> match_HD s \<and> \<not> match_SE s"
  using match_tag_isspace_hd [of s] by (auto simp: match_HD_iff match_SE_iff)

lemma match_SE_not_HD: "match_SE s \<Longrightarrow> \<not> match_HD s"
  by (auto simp: match_HD_iff match_SE_iff)

lemma match_tag_take: "match_tag s = Some n \<Longrightarrow> match_tag (take n s) = Some (length (take n s))"
  by (auto simp: match_tag_def tag3_iff tag2_iff split: if_splits)

lemma match_tag_Cons_append: "match_tag (c # t @ u) = None \<Longrightarrow> match_tag (c # t) = None"
  using match_tag_append [of "c # t" u] by (cases "match_tag (c # t)") simp_all

lemma alternating_cons_first:
  assumes "alternating segs" and "match_tag (c # concat segs) = None"
  shows "alternating (cons_first c segs)"
proof (cases segs rule: alternating.cases)
  case (1 t)
  then show ?thesis using assms match_tag_Cons_append [of c t "[]"] by simp
next
  case (2 t d rest)
  then show ?thesis using assms match_tag_Cons_append [of c t "concat (d # rest)"] by simp
next
  case 3
  then show ?thesis using assms by simp
qed

lemma concat_cons_first: "segs \<noteq> [] \<Longrightarrow> concat (cons_first c segs) = c # concat segs"
  by (cases segs) auto

lemma split_tag_not_Nil [simp]: "split_tag s \<noteq> []"
  by (induction s rule: split_tag.induct) (auto split: option.splits elim: cons_first.elims)

lemma match_tag_bound: "match_tag s = Some n \<Longrightarrow> (n = 4 \<or> n = 5) \<and> n \<le> length s"
  by (auto simp: match_tag_def tag3_iff tag2_iff split: if_splits)

lemma concat_split_tag: "concat (split_tag s) = s"
proof (induction s rule: split_tag.induct)
  case 1
  then show ?case by simp
next
  case (2 c cs)
  show ?case
  proof (cases "match_tag (c # cs)")
    case None
    with 2 show ?thesis by (simp add: concat_cons_first)
  next
    case (Some n)
    then have n: "n = 4 \<or> n = 5" using match_tag_bound by blast
    have "take n (c # cs) @ drop (n - 1) cs = c # cs"
      using n by (cases n) auto
    with 2 Some show ?thesis by simp
  qed
qed

lemma alternating_split_tag: "alternating (split_tag s)"
proof (induction s rule: split_tag.induct)
  case 1
  then show ?case by simp
next
  case (2 c cs)
  show ?case
  proof (cases "match_tag (c # cs)")
    case None
    with 2 show ?thesis
      by (simp add: alternating_cons_first concat_split_tag)
  next
    case (Some n)
    with 2 show ?thesis
      using match_tag_take [OF Some] by simp
  qed
qed

lemma alternating_after_tag:
  "alternating (pre @ tg # tx # post) \<Longrightarrow> match_tag tg \<noteq> None \<Longrightarrow> alternating (tx # post)"
proof (induction pre rule: induct_list012)
  case 1
  then show ?case by (auto simp: match_tag_None_if_no_tag)
next
  case (2 x)
  then show ?case by simp
next
  case (3 x y zs)
  then show ?case by simp
qed

lemma alternating_tail:
  "alternating (t # rest) \<Longrightarrow> \<not> has_tag t \<and> (rest = [] \<or> seg_key (hd rest) \<noteq> None)"
  by (cases rest) (auto simp: seg_key_def)


lemma step_inline_HD:
  "match_HD s \<Longrightarrow> py ''HD'' \<in> set fn \<Longrightarrow>
   step fn (k, v, d) s = (py ''HD'', strip (drop 3 s), d(py ''HD'' \<mapsto> strip (drop 3 s)))"
  by (simp add: step.simps classify.simps)

lemma step_inline_SE:
  "match_SE s \<Longrightarrow> py ''SE'' \<in> set fn \<Longrightarrow>
   step fn (k, v, d) s = (py ''SE'', strip (drop 3 s), d(py ''SE'' \<mapsto> strip (drop 3 s)))"
  by (simp add: step.simps classify.simps match_SE_not_HD)

lemma step_tag:
  "match_tag s \<noteq> None \<Longrightarrow>
   step fn (k, v, d) s = (strip s, v, if strip s \<in> set fn then d(strip s \<mapsto> v) else d)"
  using match_tag_not_inline [of s] by (simp add: step.simps classify.simps)

lemma step_text:
  "\<not> match_HD s \<Longrightarrow> \<not> match_SE s \<Longrightarrow> match_tag s = None \<Longrightarrow>
   step fn (k, v, d) s = (k, strip s, if k \<in> set fn then d(k \<mapsto> strip s) else d)"
  by (simp add: step.simps classify.simps)

lemma parse_doc_split:
  "split_tag doc = xs @ ys \<Longrightarrow> parse_doc fn doc = record_of (walk fn (walk fn init xs) ys)"
  by (simp add: parse_doc_def walk_append)

lemma alternating_from_tag:
  "alternating (pre @ tg # rest) \<Longrightarrow> match_tag tg \<noteq> None \<Longrightarrow>
   match_tag tg = Some (length tg) \<and> alternating rest"
proof (induction pre rule: induct_list012)
  case 1
  then show ?case by (cases rest) (auto simp: match_tag_None_if_no_tag)
next
  case (2 x)
  then show ?case by simp
next
  case (3 x y zs)
  then show ?case by simp
qed


lemma alternating_Cons: "alternating segs \<Longrightarrow> \<exists>t rest. segs = t # rest"
  by (cases segs) auto


lemma step_ignores_val:
  "match_tag s = None \<Longrightarrow> step fn (k, v, d) s = step fn (k, v', d) s"
  by (simp add: step.simps classify.simps)


lemma dom_step: "dom (record_of (step fn (k, v, d) s)) \<subseteq> dom d \<union> set fn"
  by (auto simp: step.simps split: prod.splits if_splits)


lemma dom_walk: "dom (record_of (walk fn (k, v, d) segs)) \<subseteq> dom d \<union> set fn"
proof (induction segs arbitrary: k v d)
  case Nil
  then show ?case by simp
next
  case (Cons s segs)
  obtain k' v' d' where st: "step fn (k, v, d) s = (k', v', d')"
    by (cases "step fn (k, v, d) s") auto
  then have "dom d' \<subseteq> dom d \<union> set fn"
    using dom_step [of fn k v d s] by simp
  with Cons.IH [of k' v' d'] show ?case
    by (auto simp: st)
qed


lemma dom_parse_doc: "dom (parse_doc fn doc) \<subseteq> set fn"
  using dom_walk [of fn "[]" "[]" Map.empty "split_tag doc"] by (simp add: parse_doc_def)


lemma match_tag_full_last: "match_tag s = Some (length s) \<Longrightarrow> s \<noteq> [] \<and> last s = LF"
  by (auto simp: match_tag_def tag3_iff tag2_iff split: if_splits)


lemma rstrip_no_space_last: "rstrip s \<noteq> [] \<Longrightarrow> \<not> isspace (last (rstrip s))"
  unfolding rstrip_def using hd_dropWhile [of isspace "rev s"] by (simp add: last_rev)


lemma strip_no_space_last: "strip s \<noteq> [] \<Longrightarrow> \<not> isspace (last (strip s))"
  unfolding strip_def by (rule rstrip_no_space_last)

text \<open>The equations that evaluate the model on a concrete input.\<close>

lemmas eval_simps = py_def match_tag_def isspace_def upperAZ_def strip_def lstrip_def rstrip_def
  seg_key_def fieldnames_def

section \<open>Blocks without tag markers\<close>

text \<open>
  C6. An article block in which the tag-boundary pattern does not occur, and whose
  trimmed text does not begin with the inline form \<open>HD\<close> or \<open>SE\<close> followed by a
  whitespace character, gives the empty record, whatever free text it holds. (The
  empty string is not a field code. A block that is empty once trimmed is skipped
  by the loop and gives no record at all.)
\<close>

theorem no_marker_empty_record:
  assumes "\<not> has_tag blk" and "\<not> match_HD (strip blk)" and "\<not> match_SE (strip blk)"
    and "[] \<notin> set fn"
  shows "parse_doc fn (strip blk) = Map.empty \<and>
         parse_block fn blk = (if strip blk = [] then None else Some Map.empty)"
proof -
  from assms(1) have nt: "\<not> has_tag (strip blk)"
    using has_tag_strip by blast
  then have "split_tag (strip blk) = [strip blk]"
    by (rule split_tag_no_tag)
  moreover from nt have "match_tag (strip blk) = None"
    by (rule match_tag_None_if_no_tag)
  ultimately have "parse_doc fn (strip blk) = Map.empty"
    using assms(2-4) by (simp add: parse_doc_def step_text)
  then show ?thesis
    by (simp add: parse_block_def)
qed


theorem no_marker_empty_record_witness:
  "\<not> has_tag (py ''  Plain text: HD is no tag here.\<newline>'') \<and>
   parse_doc fieldnames (strip (py ''  Plain text: HD is no tag here.\<newline>'')) = Map.empty \<and>
   parse_block fieldnames (py ''  Plain text: HD is no tag here.\<newline>'') = Some Map.empty"
proof -
  let ?b = "py ''  Plain text: HD is no tag here.\<newline>''"
  have s: "strip ?b = py ''Plain text: HD is no tag here.''"
    by (simp add: py_def strip_def lstrip_def rstrip_def isspace_def)
  have 1: "\<not> has_tag ?b"
    by (simp add: py_def match_tag_def isspace_def upperAZ_def)
  have 2: "\<not> match_HD (strip ?b)" "\<not> match_SE (strip ?b)"
    unfolding s by (simp_all add: py_def)
  have 3: "[] \<notin> set fieldnames"
    by (simp add: fieldnames_def py_def)
  have 4: "strip ?b \<noteq> []"
    unfolding s by (simp add: py_def)
  show ?thesis
    using no_marker_empty_record [OF 1 2 3] 1 4 by simp
qed

section \<open>The parser raises nothing\<close>

text \<open>
  The slice \<open>split[3:]\<close> of a string raises nothing whatever its length (\<open>drop\<close>); after
  an inline match the three characters it drops are there.
\<close>

lemma inline_length: "match_HD s \<or> match_SE s \<Longrightarrow> 3 \<le> length s"
  by (auto simp: match_HD_iff match_SE_iff)

lemma bind_Inr [simp]: "bind (Inr x) f = f x"
  by (simp add: bind_def)

lemma bind_Inl [simp]: "bind (Inl e) f = Inl e"
  by (simp add: bind_def)

lemma ms_tag3:
  "ms L regex (w # a # b # c # d # r) None =
     (if isspace w \<and> upperAZ a \<and> upperAZ b
      then (if upperAZ c \<and> d = LF then [(r, Some [w, a, b, c, d])] else []) @
           (if c = LF then [(d # r, Some [w, a, b, c])] else [])
      else [])"
  by (simp add: regex_def eval_nat_numeral)

lemma ms_short:
  "ms L regex [] None = []" "ms L regex [w] None = []" "ms L regex [w, a] None = []"
  "ms L regex [w, a, b] None = []"
  "ms L regex [w, a, b, c] None =
     (if isspace w \<and> upperAZ a \<and> upperAZ b \<and> c = LF then [([], Some [w, a, b, c])] else [])"
  by (simp_all add: regex_def eval_nat_numeral)

lemma re_match_at_regex:
  "re_match_at L regex s = (case match_tag s of None \<Rightarrow> None | Some n \<Rightarrow> Some (n, Some (take n s)))"
proof -
  consider "s = []" | w where "s = [w]" | w a where "s = [w, a]" | w a b where "s = [w, a, b]"
    | w a b c where "s = [w, a, b, c]" | w a b c d r where "s = w # a # b # c # d # r"
    by (metis list.exhaust)
  then show ?thesis
    by cases (auto simp: re_match_at_def ms_short ms_tag3 match_tag_def)
qed


lemma re_match_HD: "re_match regex_HD s \<noteq> None \<longleftrightarrow> match_HD s"
proof -
  consider "s = []" | h where "s = [h]" | h d where "s = [h, d]" | h d w r where "s = h # d # w # r"
    by (metis list.exhaust)
  then show ?thesis
    by cases (auto simp: re_match_def re_match_at_def regex_HD_def)
qed

lemma re_match_SE: "re_match regex_SE s \<noteq> None \<longleftrightarrow> match_SE s"
proof -
  consider "s = []" | h where "s = [h]" | h d where "s = [h, d]" | h d w r where "s = h # d # w # r"
    by (metis list.exhaust)
  then show ?thesis
    by cases (auto simp: re_match_def re_match_at_def regex_SE_def)
qed

lemma re_match_regex: "re_match regex s \<noteq> None \<longleftrightarrow> match_tag s \<noteq> None"
  by (simp add: re_match_def re_match_at_regex split: option.splits)

lemma cons_text_Some: "segs \<noteq> [] \<Longrightarrow> cons_text c (map Some segs) = map Some (cons_first c segs)"
  by (cases segs) auto

lemma re_split_from_regex: "re_split_from L regex s = Some (map Some (split_tag s))"
proof (induction s rule: split_tag.induct)
  case 1
  then show ?case
    by (simp add: re_match_at_regex match_tag_def)
next
  case (2 c cs)
  show ?case
  proof (cases "match_tag (c # cs)")
    case None
    with 2 show ?thesis
      by (simp add: re_match_at_regex cons_text_Some)
  next
    case (Some n)
    then have "n \<noteq> 0"
      using match_tag_bound by fastforce
    with 2 Some show ?thesis
      by (simp add: re_match_at_regex)
  qed
qed

lemma re_match_py_Some:
  "re_match_py regex_HD (Some s) = Inr (match_HD s)"
  "re_match_py regex_SE (Some s) = Inr (match_SE s)"
  "re_match_py regex (Some s) = Inr (match_tag s \<noteq> None)"
  unfolding re_match_py_def
  using re_match_HD [of s] re_match_SE [of s] re_match_regex [of s] by auto

lemma classify_py_Some:
  "classify_py regex (key, val) (Some s) = Inr (classify (key, val) s)"
  by (simp add: re_match_py_Some slice_from_def strip_py_def classify.simps)

lemma step_py_Some: "step_py regex fn st (Some s) = Inr (step fn st s)"
proof -
  obtain key val d where st: "st = (key, val, d)"
    by (cases st) auto
  obtain key' val' where c: "classify (key, val) s = (key', val')"
    by (cases "classify (key, val) s") auto
  show ?thesis
    unfolding st step_py.simps classify_py_Some step.simps c by simp
qed

lemma loop_splits_Some: "loop_splits regex fn st (map Some segs) = Inr (walk fn st segs)"
  by (induction segs arbitrary: st) (simp_all add: step_py_Some del: step_py.simps)

text \<open>
  C5. For every string given as an article, \<open>re.split\<close> on \<open>regex\<close> returns strings only
  (its group takes part in every match and no match is empty), namely the
  segments of \<open>split_tag\<close>; so no call of the loop body meets \<open>None\<close>, no branch raises,
  the slice \<open>split[3:]\<close> included, and the parser returns a record, the one \<open>parse_doc\<close>
  gives, which is finite.
\<close>

theorem parser_never_raises:
  "re_split regex doc = Some (map Some (split_tag doc)) \<and>
   parse_doc_re regex fn doc = Some (Inr (parse_doc fn doc)) \<and>
   finite (dom (parse_doc fn doc))"
proof (intro conjI)
  show sp: "re_split regex doc = Some (map Some (split_tag doc))"
    by (simp add: re_split_def re_split_from_regex)
  show "parse_doc_re regex fn doc = Some (Inr (parse_doc fn doc))"
    by (simp add: parse_doc_re_def sp loop_splits_Some parse_doc_def)
  show "finite (dom (parse_doc fn doc))"
    using dom_parse_doc [of fn doc] by (rule finite_subset) simp
qed

theorem parser_never_raises_witness:
  "parse_doc_re regex fieldnames (py ''HD x'') = Some (Inr (parse_doc fieldnames (py ''HD x''))) \<and>
   parse_doc fieldnames (py ''HD x'') (py ''HD'') = Some (py ''x'')"
proof -
  have "split_tag (py ''HD x'') = [py ''HD x'']"
    by (simp add: eval_simps)
  then have "parse_doc fieldnames (py ''HD x'') (py ''HD'') = Some (py ''x'')"
    unfolding parse_doc_def by (simp add: eval_simps step.simps classify.simps)
  then show ?thesis
    using parser_never_raises [of "py ''HD x''" fieldnames] by simp
qed

text \<open>
  This rests on the pattern. With a group that can stay out of a match, as in
  \<open>'(a)?b'\<close>, \<open>re.split\<close> returns a \<open>None\<close> and the same loop raises \<open>TypeError\<close> at its
  first \<open>re.match\<close>.
\<close>

lemma optional_group_raises:
  "re_split (Seq (Rep 0 1 (Grp (Lit 97))) (Lit 98)) (py ''xb'') = Some [Some (py ''x''), None, Some []] \<and>
   parse_doc_re (Seq (Rep 0 1 (Grp (Lit 97))) (Lit 98)) fieldnames (py ''xb'') = Some (Inl TypeError)"
proof -
  have sp: "re_split (Seq (Rep 0 1 (Grp (Lit 97))) (Lit 98)) (py ''xb'') = Some [Some (py ''x''), None, Some []]"
    by (simp add: re_split_def re_match_at_def py_def eval_nat_numeral)
  have m: "re_match regex_HD (py ''x'') = None" "re_match regex_SE (py ''x'') = None"
    "re_match (Seq (Rep 0 1 (Grp (Lit 97))) (Lit 98)) (py ''x'') = None"
    by (simp_all add: re_match_def re_match_at_def regex_HD_def regex_SE_def py_def eval_nat_numeral)
  show ?thesis
    unfolding parse_doc_re_def sp
    by (simp add: re_match_py_def strip_py_def m)
qed

section \<open>The inline and the generic form of \<open>HD\<close> and \<open>SE\<close>\<close>



text \<open>
  The inline rule looks at a segment of the split. When the whitespace after a
  leading \<open>HD\<close> begins a tag boundary, the first segment is \<open>HD\<close> alone: it does not
  have the inline form, it is free text, and no headline is recorded.
\<close>

lemma inline_form_needs_its_whitespace:
  "split_tag (py ''HD UK\<newline>Brexit vote'') = [py ''HD'', py '' UK\<newline>'', py ''Brexit vote''] \<and>
   \<not> match_HD (py ''HD'') \<and>
   parse_doc fieldnames (py ''HD UK\<newline>Brexit vote'') (py ''HD'') = None"
proof -
  have s: "split_tag (py ''HD UK\<newline>Brexit vote'') = [py ''HD'', py '' UK\<newline>'', py ''Brexit vote'']"
    by (simp add: eval_simps)
  show ?thesis
    unfolding parse_doc_def s by (simp add: eval_simps step.simps classify.simps)
qed

section \<open>Unrecognized field codes\<close>

text \<open>
  C2, as amended. Let a tag-boundary segment carry a code that is not configured, let
  the segment after it be free text, and let \<open>doc'\<close> be a block whose split is the
  same sequence without these two segments. Provided that, when the next tag is a
  configured one, the segment after that tag is free text (no inline \<open>HD\<close>/\<open>SE\<close>
  form), both blocks give the same record. In every case the code is no key of the
  record, and the record being built is the same before the tag and after its
  text.
\<close>

theorem unrecognized_code_ignored:
  assumes sp: "split_tag doc = pre @ tg # tx # post"
    and tg: "match_tag tg \<noteq> None" "strip tg \<notin> set fn"
    and tx: "\<not> match_HD tx" "\<not> match_SE tx"
    and sp': "split_tag doc' = pre @ post"
    and nxt: "\<forall>tg2 tx2 rest. post = tg2 # tx2 # rest \<and> strip tg2 \<in> set fn \<longrightarrow>
                \<not> match_HD tx2 \<and> \<not> match_SE tx2"
  shows "parse_doc fn doc = parse_doc fn doc' \<and> parse_doc fn doc (strip tg) = None \<and>
         record_of (walk fn init (pre @ [tg, tx])) = record_of (walk fn init pre)"
proof -
  have alt: "alternating (tx # post)"
    using alternating_split_tag [of doc] sp tg(1) alternating_after_tag by simp
  then have tx': "match_tag tx = None"
    using alternating_tail match_tag_None_if_no_tag by blast
  obtain k v d where pre: "walk fn init pre = (k, v, d)"
    by (cases "walk fn init pre") auto
  have st: "walk fn init (pre @ [tg, tx]) = (strip tg, strip tx, d)"
    using tg tx tx' by (simp add: walk_append pre step_tag step_text)
  have same: "walk fn (strip tg, strip tx, d) post = walk fn (k, v, d) post \<or> post = []"
  proof (cases post)
    case Nil
    then show ?thesis by simp
  next
    case (Cons tg2 rest2)
    with alt have tg2: "match_tag tg2 = Some (length tg2)" and "alternating rest2"
      by simp_all
    then obtain tx2 rest where rest2: "rest2 = tx2 # rest" and "alternating (tx2 # rest)"
      using alternating_Cons by blast
    then have tx2: "match_tag tx2 = None"
      using alternating_tail match_tag_None_if_no_tag by blast
    have "step fn (step fn (strip tg, strip tx, d) tg2) tx2 = step fn (step fn (k, v, d) tg2) tx2"
    proof (cases "strip tg2 \<in> set fn")
      case True
      with nxt Cons rest2 have "\<not> match_HD tx2" "\<not> match_SE tx2"
        by auto
      with tg2 tx2 True show ?thesis
        by (simp add: step_tag step_text)
    next
      case False
      with tg2 show ?thesis
        using step_ignores_val [OF tx2] by (simp add: step_tag)
    qed
    then show ?thesis
      by (simp add: Cons rest2)
  qed
  have "parse_doc fn doc = record_of (walk fn (walk fn init (pre @ [tg, tx])) post)"
    using sp by (intro parse_doc_split) simp
  moreover have "parse_doc fn doc' = record_of (walk fn (walk fn init pre) post)"
    using sp' by (intro parse_doc_split) simp
  ultimately have "parse_doc fn doc = parse_doc fn doc'"
    using same st pre by auto
  moreover have "parse_doc fn doc (strip tg) = None"
    using dom_parse_doc [of fn doc] tg(2) by blast
  ultimately show ?thesis
    using st pre by simp
qed

theorem unrecognized_code_ignored_witness:
  "parse_doc fieldnames (py ''HD a\<newline> BY\<newline>John\<newline>LA\<newline>English'') =
     parse_doc fieldnames (py ''HD a\<newline>\<newline>LA\<newline>English'') \<and>
   parse_doc fieldnames (py ''HD a\<newline> BY\<newline>John\<newline>LA\<newline>English'') (py ''BY'') = None"
proof -
  let ?doc = "py ''HD a\<newline> BY\<newline>John\<newline>LA\<newline>English''"
  let ?doc' = "py ''HD a\<newline>\<newline>LA\<newline>English''"
  let ?pre = "[py ''HD a\<newline>'']"
  let ?post = "[py ''\<newline>LA\<newline>'', py ''English'']"
  have sp: "split_tag ?doc = ?pre @ py '' BY\<newline>'' # py ''John'' # ?post"
    by (simp add: eval_simps)
  have sp': "split_tag ?doc' = ?pre @ ?post"
    by (simp add: eval_simps)
  have tg: "match_tag (py '' BY\<newline>'') \<noteq> None" "strip (py '' BY\<newline>'') \<notin> set fieldnames"
    by (simp_all add: eval_simps)
  have tx: "\<not> match_HD (py ''John'')" "\<not> match_SE (py ''John'')"
    by (simp_all add: eval_simps)
  have nxt: "\<forall>tg2 tx2 rest. ?post = tg2 # tx2 # rest \<and> strip tg2 \<in> set fieldnames \<longrightarrow>
                \<not> match_HD tx2 \<and> \<not> match_SE tx2"
    by (simp add: eval_simps)
  have s: "strip (py '' BY\<newline>'') = py ''BY''"
    by (simp add: eval_simps)
  show ?thesis
    using unrecognized_code_ignored [OF sp tg tx sp' nxt] unfolding s by blast
qed

text \<open>
  C2 as stated fails: \<open>BY\<close> is not configured, yet its text \<open>John\<close> is emitted as the
  value of \<open>LA\<close>, because the segment after the tag \<open>LA\<close> is an inline \<open>SE\<close> form, which
  does not overwrite what was written for \<open>LA\<close> when the tag was classified. Without
  the \<open>BY\<close> tag and its text the value of \<open>LA\<close> is \<open>a\<close>.
\<close>

theorem unrecognized_code_counterexample:
  "split_tag (py ''HD a\<newline> BY\<newline>John\<newline>LA\<newline>SE x'') =
     [py ''HD a\<newline>''] @ py '' BY\<newline>'' # py ''John'' # [py ''\<newline>LA\<newline>'', py ''SE x''] \<and>
   split_tag (py ''HD a\<newline>\<newline>LA\<newline>SE x'') =
     [py ''HD a\<newline>''] @ [py ''\<newline>LA\<newline>'', py ''SE x''] \<and>
   strip (py '' BY\<newline>'') \<notin> set fieldnames \<and>
   parse_doc fieldnames (py ''HD a\<newline> BY\<newline>John\<newline>LA\<newline>SE x'') (py ''LA'') = Some (py ''John'') \<and>
   parse_doc fieldnames (py ''HD a\<newline>\<newline>LA\<newline>SE x'') (py ''LA'') = Some (py ''a'') \<and>
   parse_doc fieldnames (py ''HD a\<newline> BY\<newline>John\<newline>LA\<newline>SE x'') \<noteq>
     parse_doc fieldnames (py ''HD a\<newline>\<newline>LA\<newline>SE x'')"
proof -
  let ?doc = "py ''HD a\<newline> BY\<newline>John\<newline>LA\<newline>SE x''"
  let ?doc' = "py ''HD a\<newline>\<newline>LA\<newline>SE x''"
  have 1: "split_tag ?doc =
     [py ''HD a\<newline>''] @ py '' BY\<newline>'' # py ''John'' # [py ''\<newline>LA\<newline>'', py ''SE x'']"
    by (simp add: eval_simps)
  have 2: "split_tag ?doc' = [py ''HD a\<newline>''] @ [py ''\<newline>LA\<newline>'', py ''SE x'']"
    by (simp add: eval_simps)
  have 3: "strip (py '' BY\<newline>'') \<notin> set fieldnames"
    by (simp add: eval_simps)
  have 4: "parse_doc fieldnames ?doc (py ''LA'') = Some (py ''John'')"
    unfolding parse_doc_def 1 by (simp add: eval_simps step.simps classify.simps)
  have 5: "parse_doc fieldnames ?doc' (py ''LA'') = Some (py ''a'')"
    unfolding parse_doc_def 2 by (simp add: eval_simps step.simps classify.simps)
  have 6: "parse_doc fieldnames ?doc \<noteq> parse_doc fieldnames ?doc'"
  proof
    assume "parse_doc fieldnames ?doc = parse_doc fieldnames ?doc'"
    then have "parse_doc fieldnames ?doc (py ''LA'') = parse_doc fieldnames ?doc' (py ''LA'')"
      by simp
    then show False
      unfolding 4 5 by (simp add: py_def)
  qed
  from 1 2 3 4 5 6 show ?thesis
    by blast
qed

text \<open>
  The two last parts of the amended C2 need neither the second block nor the
  condition on the next tag.
\<close>

lemma unrecognized_code_no_key:
  assumes "split_tag doc = pre @ tg # tx # post"
    and "match_tag tg \<noteq> None" "strip tg \<notin> set fn"
    and "\<not> match_HD tx" "\<not> match_SE tx"
  shows "parse_doc fn doc (strip tg) = None \<and>
         record_of (walk fn init (pre @ [tg, tx])) = record_of (walk fn init pre)"
proof -
  have "alternating (tx # post)"
    using alternating_split_tag [of doc] assms(1,2) alternating_after_tag by simp
  then have tx': "match_tag tx = None"
    using alternating_tail match_tag_None_if_no_tag by blast
  obtain k v d where pre: "walk fn init pre = (k, v, d)"
    by (cases "walk fn init pre") auto
  have "walk fn init (pre @ [tg, tx]) = (strip tg, strip tx, d)"
    using assms(2-5) tx' by (simp add: walk_append pre step_tag step_text)
  moreover have "parse_doc fn doc (strip tg) = None"
    using dom_parse_doc [of fn doc] assms(3) by blast
  ultimately show ?thesis
    using pre by simp
qed

section \<open>What follows a tag boundary\<close>

text \<open>
  C10, as amended. In the split of every block a tag-boundary segment is followed by
  exactly one segment, possibly empty, in which the pattern does not occur, and
  then by another tag boundary or by nothing. When that segment is free text (no
  inline \<open>HD\<close>/\<open>SE\<close> form) it overwrites the value written when the tag was
  classified. Hence a configured tag whose boundary is directly followed by
  another boundary (the segment between them is empty) maps to the empty string in
  the emitted record, provided no later segment assigns its code. In a trimmed
  block a tag boundary is never the last content: it is followed by a non-empty
  segment or by further segments.
\<close>

theorem tag_followed_by_one_text_segment:
  assumes sp: "split_tag doc = pre @ tg # rest"
    and tg: "match_tag tg \<noteq> None" "strip tg \<in> set fn"
  shows "\<exists>tx post. rest = tx # post \<and> \<not> has_tag tx \<and> (post = [] \<or> match_tag (hd post) \<noteq> None) \<and>
           (\<not> match_HD tx \<and> \<not> match_SE tx \<longrightarrow>
              record_of (walk fn init (pre @ [tg, tx])) (strip tg) = Some (strip tx)) \<and>
           (tx = [] \<and> (\<forall>s\<in>set post. seg_key s \<noteq> Some (strip tg)) \<longrightarrow>
              parse_doc fn doc (strip tg) = Some []) \<and>
           (strip doc = doc \<longrightarrow> tx \<noteq> [] \<or> post \<noteq> [])"
proof -
  from alternating_split_tag [of doc] sp tg(1)
  have full: "match_tag tg = Some (length tg)" and "alternating rest"
    using alternating_from_tag by auto
  then obtain tx post where rest: "rest = tx # post" and alt: "alternating (tx # post)"
    using alternating_Cons by blast
  then have nt: "\<not> has_tag tx" and nxt: "post = [] \<or> seg_key (hd post) \<noteq> None"
    using alternating_tail by blast+
  have nxt': "post = [] \<or> match_tag (hd post) \<noteq> None"
    using alt by (cases post) auto
  have tx': "match_tag tx = None"
    using nt by (rule match_tag_None_if_no_tag)
  obtain k v d where pre: "walk fn init pre = (k, v, d)"
    by (cases "walk fn init pre") auto
  have st: "walk fn init (pre @ [tg, tx]) = (strip tg, strip tx, d(strip tg \<mapsto> strip tx))"
    if "\<not> match_HD tx" "\<not> match_SE tx"
    using tg that tx' by (simp add: walk_append pre step_tag step_text)
  have c1: "\<not> match_HD tx \<and> \<not> match_SE tx \<longrightarrow>
              record_of (walk fn init (pre @ [tg, tx])) (strip tg) = Some (strip tx)"
    using st by simp
  have c2: "tx = [] \<and> (\<forall>s\<in>set post. seg_key s \<noteq> Some (strip tg)) \<longrightarrow>
              parse_doc fn doc (strip tg) = Some []"
  proof (intro impI, elim conjE)
    assume e: "tx = []" and later: "\<forall>s\<in>set post. seg_key s \<noteq> Some (strip tg)"
    have "strip tx = []"
      using e by (simp add: strip_def lstrip_def rstrip_def)
    moreover have "\<not> match_HD tx" "\<not> match_SE tx"
      using e by simp_all
    ultimately have st': "walk fn init (pre @ [tg, tx]) = (strip tg, [], d(strip tg \<mapsto> []))"
      using st by simp
    have "record_of (walk fn (strip tg, [], d(strip tg \<mapsto> [])) post) (strip tg)
          = (d(strip tg \<mapsto> [])) (strip tg)"
      using later nxt by (rule walk_keeps_after_tag)
    moreover have "parse_doc fn doc = record_of (walk fn (walk fn init (pre @ [tg, tx])) post)"
      using sp rest by (intro parse_doc_split) simp
    ultimately show "parse_doc fn doc (strip tg) = Some []"
      using st' by simp
  qed
  have c3: "strip doc = doc \<longrightarrow> tx \<noteq> [] \<or> post \<noteq> []"
  proof (intro impI, rule ccontr)
    assume sd: "strip doc = doc" and "\<not> (tx \<noteq> [] \<or> post \<noteq> [])"
    with sp rest have "split_tag doc = pre @ [tg, []]"
      by simp
    then have "concat (pre @ [tg, []]) = doc"
      using concat_split_tag [of doc] by simp
    then have "doc = concat pre @ tg"
      by simp
    moreover have "tg \<noteq> []" "last tg = LF"
      using match_tag_full_last [OF full] by simp_all
    ultimately have "doc \<noteq> []" "last doc = LF"
      by simp_all
    with sd show False
      using strip_no_space_last [of doc] by simp
  qed
  show ?thesis
    by (intro exI [of _ tx] exI [of _ post] conjI) (fact rest nt nxt' c1 c2 c3)+
qed

theorem tag_followed_by_one_text_segment_witness:
  "split_tag (py ''HD a\<newline> LA\<newline> CY\<newline>USA'') =
     [py ''HD a\<newline>''] @ py '' LA\<newline>'' # [[], py '' CY\<newline>'', py ''USA''] \<and>
   parse_doc fieldnames (py ''HD a\<newline> LA\<newline> CY\<newline>USA'') (py ''LA'') = Some []"
proof -
  let ?doc = "py ''HD a\<newline> LA\<newline> CY\<newline>USA''"
  let ?tg = "py '' LA\<newline>''"
  have sp: "split_tag ?doc = [py ''HD a\<newline>''] @ ?tg # [[], py '' CY\<newline>'', py ''USA'']"
    by (simp add: eval_simps)
  have tg: "match_tag ?tg \<noteq> None" "strip ?tg \<in> set fieldnames"
    by (simp_all add: eval_simps)
  have s: "strip ?tg = py ''LA''"
    by (simp add: eval_simps)
  from tag_followed_by_one_text_segment [OF sp tg]
  obtain tx post where r: "[[], py '' CY\<newline>'', py ''USA''] = tx # post"
    and c: "tx = [] \<and> (\<forall>s\<in>set post. seg_key s \<noteq> Some (strip ?tg)) \<longrightarrow>
              parse_doc fieldnames ?doc (strip ?tg) = Some []"
    by blast
  from r have "tx = []" "post = [py '' CY\<newline>'', py ''USA'']"
    by simp_all
  with c have "parse_doc fieldnames ?doc (py ''LA'') = Some []"
    unfolding s by (simp add: eval_simps)
  with sp show ?thesis
    by simp
qed

text \<open>
  C10 as stated fails. In the first block the segment after the tag \<open>LA\<close> is an inline
  \<open>SE\<close> form, which does not overwrite the value written for \<open>LA\<close>: \<open>LA\<close> keeps the
  value of the field before it. In the second block the tag line \<open>LA\<close> is directly
  followed by the tag line \<open>CY\<close>; the line feed between them belongs to the
  boundary of \<open>LA\<close>, so \<open>CY\<close> is no boundary and \<open>LA\<close> maps to \<open>CY\<close> and the text
  after it, not to the empty string.
\<close>

theorem tag_followed_by_inline_counterexample:
  "split_tag (py ''HD a\<newline> LA\<newline>SE x'') = [py ''HD a\<newline>'', py '' LA\<newline>'', py ''SE x''] \<and>
   parse_doc fieldnames (py ''HD a\<newline> LA\<newline>SE x'') (py ''LA'') = Some (py ''a'') \<and>
   split_tag (py ''HD a\<newline>LA\<newline>CY\<newline>USA'') = [py ''HD a'', py ''\<newline>LA\<newline>'', py ''CY\<newline>USA''] \<and>
   parse_doc fieldnames (py ''HD a\<newline>LA\<newline>CY\<newline>USA'') (py ''LA'') = Some (py ''CY\<newline>USA'')"
proof -
  have 1: "split_tag (py ''HD a\<newline> LA\<newline>SE x'') = [py ''HD a\<newline>'', py '' LA\<newline>'', py ''SE x'']"
    by (simp add: eval_simps)
  have 2: "parse_doc fieldnames (py ''HD a\<newline> LA\<newline>SE x'') (py ''LA'') = Some (py ''a'')"
    unfolding parse_doc_def 1 by (simp add: eval_simps step.simps classify.simps)
  have 3: "split_tag (py ''HD a\<newline>LA\<newline>CY\<newline>USA'') = [py ''HD a'', py ''\<newline>LA\<newline>'', py ''CY\<newline>USA'']"
    by (simp add: eval_simps)
  have 4: "parse_doc fieldnames (py ''HD a\<newline>LA\<newline>CY\<newline>USA'') (py ''LA'') = Some (py ''CY\<newline>USA'')"
    unfolding parse_doc_def 3 by (simp add: eval_simps step.simps classify.simps)
  from 1 2 3 4 show ?thesis
    by blast
qed

section \<open>The loader: the search summary\<close>

lemma split_lit_not_Nil [simp]: "split_lit p s \<noteq> []"
  by (induction p s rule: split_lit.induct) (auto elim: cons_first.elims)

lemma split_lit_absent: "\<not> sublist p s \<Longrightarrow> split_lit p s = [s]"
  by (induction s) (auto simp: sublist_Cons_right)

lemma prefix_inside:
  assumes "prefix p (a @ p @ b)" and "a \<noteq> []"
  shows "prefix p (a @ butlast p)"
proof (cases "p = []")
  case True
  then show ?thesis by simp
next
  case False
  have "length p \<le> length (a @ butlast p)"
    using assms(2) by (cases a) auto
  moreover have "prefix (a @ butlast p) (a @ p @ b)"
    using False by (metis append_butlast_last_id append.assoc prefixI)
  ultimately show ?thesis
    using assms(1) by (metis prefix_length_prefix)
qed

lemma split_lit_first:
  "p \<noteq> [] \<Longrightarrow> \<not> sublist p (a @ butlast p) \<Longrightarrow> split_lit p (a @ p @ b) = a # split_lit p b"
proof (induction a)
  case Nil
  then obtain c p' where p: "p = c # p'"
    by (cases p) auto
  then show ?case by simp
next
  case (Cons x a)
  from Cons.prems(2) have np: "\<not> prefix p ((x # a) @ butlast p)" and ns: "\<not> sublist p (a @ butlast p)"
    by (simp_all add: sublist_Cons_right)
  from np have "\<not> prefix p ((x # a) @ p @ b)"
    using prefix_inside [of p "x # a" b] by blast
  then show ?case
    using Cons.IH [OF Cons.prems(1) ns] by simp
qed

lemma search_sum_not_Nil [simp]: "search_sum \<noteq> []"
  by (simp add: search_sum_def)

text \<open>
  C7. When the marker \<open>'\nSearch Summary\n'\<close> occurs in the decoded text of a file,
  with \<open>a\<close> the text before its first occurrence (the marker occurs nowhere in \<open>a\<close>
  followed by all but the last character of the marker), the documents are those
  of \<open>a\<close> alone: nothing at or after the marker is split or parsed, and the file gives
  the table that a file holding \<open>a\<close> gives. When the marker is absent the whole
  text is split on the page break.
\<close>

theorem search_summary_dropped:
  "(\<not> sublist search_sum (a @ butlast search_sum) \<longrightarrow>
      load_text (a @ search_sum @ b) = Inr (split_lit sep a) \<and>
      load_text (a @ search_sum @ b) = load_text a \<and>
      load_file fn df (a @ search_sum @ b) = load_file fn df a) \<and>
   (\<not> sublist search_sum text \<longrightarrow> load_text text = Inr (split_lit sep text))"
proof (intro conjI impI)
  assume first: "\<not> sublist search_sum (a @ butlast search_sum)"
  then show 1: "load_text (a @ search_sum @ b) = Inr (split_lit sep a)"
    by (simp add: load_text_def split_lit_first)
  have "\<not> sublist search_sum a"
    using first by (meson sublist_append)
  then have "load_text a = Inr (split_lit sep a)"
    by (simp add: load_text_def split_lit_absent)
  with 1 show 2: "load_text (a @ search_sum @ b) = load_text a"
    by simp
  then show "load_file fn df (a @ search_sum @ b) = load_file fn df a"
    by (simp add: load_file_def)
next
  assume "\<not> sublist search_sum text"
  then show "load_text text = Inr (split_lit sep text)"
    by (simp add: load_text_def split_lit_absent)
qed


theorem search_summary_dropped_witness:
  "load_text (py ''HD a'' @ FF # py ''HD b'' @ search_sum @ py ''junk'' @ FF # py ''HD c'') =
     Inr [py ''HD a'', py ''HD b''] \<and>
   load_text (py ''HD a'' @ FF # py ''HD b'') = Inr [py ''HD a'', py ''HD b'']"
proof -
  let ?a = "py ''HD a'' @ FF # py ''HD b''"
  let ?b = "py ''junk'' @ FF # py ''HD c''"
  have 1: "\<not> sublist search_sum (?a @ butlast search_sum)"
    by (simp add: search_sum_def py_def sublist_code(3))
  have 2: "\<not> sublist search_sum ?a"
    by (simp add: search_sum_def py_def sublist_code(3))
  have 3: "split_lit sep ?a = [py ''HD a'', py ''HD b'']"
    by (simp add: sep_def py_def)
  from search_summary_dropped [of ?a ?b fieldnames "DataFrame fieldnames" ?a] 1 2 3
  show ?thesis
    by simp
qed

section \<open>The loader: empty blocks\<close>

lemma columns_loc_append [simp]: "columns (loc_append df d) = columns df"
  by (simp add: loc_append_def)

lemma rows_loc_append [simp]: "rows (loc_append df d) = rows df @ [map d (columns df)]"
  by (simp add: loc_append_def)

lemma parse_block_eq:
  "parse_block fn blk = (if strip blk = [] then None else Some (parse_doc fn (strip blk)))"
  by (simp add: parse_block_def)

lemma columns_loop_docs [simp]: "columns (loop_docs fn df docs) = columns df"
  by (induction docs arbitrary: df) (auto simp: parse_block_eq)

lemma rows_loop_docs:
  "rows (loop_docs fn df docs) =
     rows df @ map (\<lambda>doc. map (parse_doc fn (strip doc)) (columns df))
                   (filter (\<lambda>doc. strip doc \<noteq> []) docs)"
  by (induction docs arbitrary: df) (auto simp: parse_block_eq)

lemma loop_docs_all_empty: "\<forall>doc\<in>set docs. strip doc = [] \<Longrightarrow> loop_docs fn df docs = df"
  by (induction docs) (auto simp: parse_block_eq)

lemma set_cons_first: "seg \<in> set (cons_first c segs) \<Longrightarrow> set seg \<subseteq> insert c (\<Union> (set ` set segs))"
  by (cases segs) auto

lemma split_lit_chars: "seg \<in> set (split_lit p s) \<Longrightarrow> set seg \<subseteq> set s"
proof (induction p s arbitrary: seg rule: split_lit.induct)
  case (1 p)
  then show ?case by simp
next
  case (2 p c cs)
  show ?case
  proof (cases "prefix p (c # cs)")
    case True
    with 2 have "seg = [] \<or> seg \<in> set (split_lit p (drop (length p - 1) cs))"
      by simp
    with 2 True show ?thesis
      using set_drop_subset [of "length p - 1" cs] by fastforce
  next
    case False
    with 2 have "seg \<in> set (cons_first c (split_lit p cs))"
      by simp
    then have "set seg \<subseteq> insert c (\<Union> (set ` set (split_lit p cs)))"
      by (rule set_cons_first)
    moreover have "\<Union> (set ` set (split_lit p cs)) \<subseteq> set cs"
      using 2 False by auto
    ultimately show ?thesis by auto
  qed
qed

lemma strip_all_space: "\<forall>c\<in>set s. isspace c \<Longrightarrow> strip s = []"
proof -
  assume "\<forall>c\<in>set s. isspace c"
  then have "lstrip s = []"
    unfolding lstrip_def using dropWhile_eq_Nil_conv by blast
  moreover have "rstrip [] = []"
    by (simp add: rstrip_def)
  ultimately show ?thesis
    by (simp only: strip_def)
qed

lemma isspace_FF [simp]: "isspace FF"
  by (simp add: isspace_def)

lemma load_file_all_space:
  assumes "\<forall>c\<in>set text. isspace c"
  shows "load_file fn df text = Inr df"
proof -
  obtain t ts where t: "split_lit search_sum text = t # ts"
    by (cases "split_lit search_sum text") auto
  then have "set t \<subseteq> set text"
    using split_lit_chars [of t search_sum "text"] by simp
  moreover have "\<forall>doc\<in>set (split_lit sep t). set doc \<subseteq> set t"
    using split_lit_chars by blast
  ultimately have "\<forall>doc\<in>set (split_lit sep t). set doc \<subseteq> set text"
    by blast
  with assms have "\<forall>doc\<in>set (split_lit sep t). strip doc = []"
    by (auto intro!: strip_all_space)
  then show ?thesis
    by (simp add: load_file_def load_text_def t loop_docs_all_empty)
qed

text \<open>
  C8. The rows added by the documents of a file are the records of the documents
  that are not empty once trimmed, in their order: a document that is empty once
  trimmed adds no row. Documents that are all empty leave the table as it is, and
  a file made of page breaks only adds no row.
\<close>

theorem empty_blocks_dropped:
  "rows (loop_docs fn df docs) =
     rows df @ map (\<lambda>doc. map (parse_doc fn (strip doc)) (columns df))
                   (filter (\<lambda>doc. strip doc \<noteq> []) docs) \<and>
   ((\<forall>doc\<in>set docs. strip doc = []) \<longrightarrow> loop_docs fn df docs = df) \<and>
   (set text \<subseteq> {FF} \<longrightarrow> load_file fn df text = Inr df)"
proof (intro conjI impI)
  assume "set text \<subseteq> {FF}"
  then have "\<forall>c\<in>set text. isspace c"
    by auto
  then show "load_file fn df text = Inr df"
    by (rule load_file_all_space)
qed (simp_all add: rows_loop_docs loop_docs_all_empty)

theorem empty_blocks_dropped_witness:
  "load_text [FF, FF] = Inr [[], [], []] \<and>
   load_file fieldnames (DataFrame fieldnames) [FF, FF] = Inr (DataFrame fieldnames) \<and>
   rows (DataFrame fieldnames) = [] \<and>
   loop_docs fieldnames (DataFrame fieldnames) [[], py '' '', [LF]] = DataFrame fieldnames"
proof -
  have 1: "load_text [FF, FF] = Inr [[], [], []]"
    by (simp add: load_text_def search_sum_def sep_def py_def)
  have 2: "set [FF, FF] \<subseteq> {FF}"
    by simp
  have 3: "\<forall>doc\<in>set [[], py '' '', [LF]]. strip doc = []"
    by (simp add: eval_simps)
  from empty_blocks_dropped [of fieldnames "DataFrame fieldnames" "[[], py '' '', [LF]]" "[FF, FF]"] 1 2 3
  show ?thesis
    by (simp add: DataFrame_def)
qed

section \<open>The column schema\<close>

lemma record_rows_loop_docs: "record_rows fn df \<Longrightarrow> record_rows fn (loop_docs fn df docs)"
  unfolding record_rows_def by (auto simp: rows_loop_docs)

lemma record_rows_load_file:
  "record_rows fn df \<Longrightarrow> load_file fn df t = Inr df' \<Longrightarrow> record_rows fn df'"
  by (auto simp: load_file_def record_rows_loop_docs split: sum.splits)

lemma record_rows_loop_files:
  "record_rows fn df \<Longrightarrow> loop_files fn read_file df files = Inr df' \<Longrightarrow> record_rows fn df'"
proof (induction files arbitrary: df)
  case Nil
  then show ?case by simp
next
  case (Cons f files)
  from Cons.prems(2) obtain t df1 where "read_file f = Inr t" "load_file fn df t = Inr df1"
    and "loop_files fn read_file df1 files = Inr df'"
    by (auto split: sum.splits)
  with Cons.IH [of df1] Cons.prems(1) show ?case
    using record_rows_load_file by blast
qed

text \<open>
  C4. In the table of every run that ends, the columns are the configured codes in
  their configured order, whatever the input holds. Every row has one cell for each
  column and is the record of an article laid out along the columns: the record
  has configured codes as keys only, and the cell of a code that the record lacks
  is missing, not left out.
\<close>

theorem fixed_column_schema:
  assumes "factiva_to_df fn glob read_file path = Inr df"
  shows "columns df = fn \<and>
         (\<forall>row\<in>set (rows df). length row = length fn \<and>
            (\<exists>doc. row = map (parse_doc fn doc) fn \<and> dom (parse_doc fn doc) \<subseteq> set fn \<and>
               (\<forall>i<length fn. row ! i = None \<longleftrightarrow> fn ! i \<notin> dom (parse_doc fn doc))))"
proof -
  have "record_rows fn (DataFrame fn)"
    by (simp add: record_rows_def DataFrame_def)
  with assms have rr: "record_rows fn df"
    unfolding factiva_to_df_def Let_def by (rule record_rows_loop_files [rotated])
  show ?thesis
  proof (intro conjI ballI)
    show "columns df = fn"
      using rr by (simp add: record_rows_def)
  next
    fix row assume "row \<in> set (rows df)"
    with rr obtain doc where row: "row = map (parse_doc fn doc) fn"
      unfolding record_rows_def by blast
    then show "length row = length fn"
      by simp
    have "\<forall>i<length fn. row ! i = None \<longleftrightarrow> fn ! i \<notin> dom (parse_doc fn doc)"
      using row by (auto simp: domIff)
    with row show "\<exists>doc. row = map (parse_doc fn doc) fn \<and> dom (parse_doc fn doc) \<subseteq> set fn \<and>
               (\<forall>i<length fn. row ! i = None \<longleftrightarrow> fn ! i \<notin> dom (parse_doc fn doc))"
      using dom_parse_doc [of fn doc] by blast
  qed
qed

theorem fixed_column_schema_witness:
  "factiva_to_df [py ''HD'', py ''LA''] (\<lambda>pat. [py ''rtfs/a.txt''])
     (\<lambda>f. Inr (py ''HD x'' @ FF # py ''plain'')) (py ''rtfs/'') =
     Inr \<lparr>columns = [py ''HD'', py ''LA''], rows = [[Some (py ''x''), None], [None, None]]\<rparr> \<and>
   length [Some (py ''x''), None :: ustring option] = length [py ''HD'', py ''LA'']"
proof -
  let ?fn = "[py ''HD'', py ''LA'']"
  let ?df = "\<lparr>columns = ?fn, rows = [[Some (py ''x''), None], [None, None]]\<rparr>"
  have run: "factiva_to_df ?fn (\<lambda>pat. [py ''rtfs/a.txt''])
     (\<lambda>f. Inr (py ''HD x'' @ FF # py ''plain'')) (py ''rtfs/'') = Inr ?df"
    by (simp add: factiva_to_df_def DataFrame_def load_file_def load_text_def search_sum_def
        sep_def parse_block_def parse_doc_def loc_append_def step.simps classify.simps
        py_def match_tag_def isspace_def upperAZ_def strip_def lstrip_def rstrip_def)
  from fixed_column_schema [OF run] have "\<forall>row\<in>set (rows ?df). length row = length ?fn"
    by blast
  with run show ?thesis
    by simp
qed

section \<open>The round trip of the generic layout\<close>

lemma not_upperAZ_LF [simp]: "\<not> upperAZ LF"
  by (simp add: upperAZ_def)

lemma is_code_cases:
  "is_code t \<longleftrightarrow> (\<exists>a b. t = [a, b] \<and> upperAZ a \<and> upperAZ b) \<or>
                (\<exists>a b c. t = [a, b, c] \<and> upperAZ a \<and> upperAZ b \<and> upperAZ c)"
  unfolding is_code_def
  by (auto simp: length_Suc_conv numeral_2_eq_2 numeral_3_eq_3)

lemma match_tag_line:
  "isspace w \<Longrightarrow> is_code t \<Longrightarrow> match_tag (tag_line w t @ r) = Some (length (tag_line w t))"
  by (auto simp: is_code_cases tag_line_def match_tag_def tag3_iff tag2_iff)

lemma match_tag_stop:
  assumes "isspace w"
  shows "match_tag (x # v @ w # y) = match_tag (x # v @ [w])"
proof -
  have nu: "\<not> upperAZ w"
    using assms upperAZ_not_space by blast
  consider "v = []" | a where "v = [a]" | a b where "v = [a, b]" | a b c where "v = [a, b, c]"
    | a b c d v' where "v = a # b # c # d # v'"
    by (metis list.exhaust)
  then show ?thesis
    by cases (auto simp: match_tag_def tag3_iff tag2_iff nu)
qed

lemma split_tag_text_then_tag:
  "isspace w \<Longrightarrow> is_code t \<Longrightarrow> \<not> has_tag (v @ [w]) \<Longrightarrow>
   split_tag (v @ tag_line w t @ r) = v # tag_line w t # split_tag r"
proof (induction v)
  case Nil
  have m: "match_tag (tag_line w t @ r) = Some (length (tag_line w t))"
    using Nil by (simp add: match_tag_line)
  have "tag_line w t @ r = w # t @ LF # r"
    by (simp add: tag_line_def)
  with m show ?case
    by (simp add: tag_line_def)
next
  case (Cons x v)
  from Cons.prems(3) have "match_tag (x # v @ [w]) = None" and nt: "\<not> has_tag (v @ [w])"
    by simp_all
  then have "match_tag (x # v @ tag_line w t @ r) = None"
    using match_tag_stop [OF Cons.prems(1), of x v "t @ LF # r"] by (simp add: tag_line_def)
  then show ?case
    using Cons.IH [OF Cons.prems(1,2) nt] by simp
qed

lemma split_tag_body:
  "isspace w \<Longrightarrow> joins_ok w v ps \<Longrightarrow> split_tag (v @ assemble w ps) = v # segments w ps"
proof (induction ps arbitrary: v)
  case Nil
  then show ?case by (simp add: split_tag_no_tag)
next
  case (Cons p ps)
  obtain t v' where p: "p = (t, v')"
    by (cases p) auto
  with Cons.prems have "\<not> has_tag (v @ [w])" "is_code t" "joins_ok w v' ps"
    by simp_all
  then show ?case
    using Cons.IH [OF Cons.prems(1), of v'] split_tag_text_then_tag [OF Cons.prems(1), of t v "v' @ assemble w ps"]
    by (simp add: p)
qed


lemma rstrip_Nil [simp]: "rstrip [] = []"
  by (simp add: rstrip_def)

lemma rstrip_Cons:
  "rstrip (h # t) = (if rstrip t = [] \<and> isspace h then [] else h # rstrip t)"
proof (cases "\<forall>c\<in>set t. isspace c")
  case True
  then have "dropWhile isspace (rev t @ [h]) = dropWhile isspace [h]"
    by (intro dropWhile_append2) simp
  moreover from True have "dropWhile isspace (rev t) = []"
    using dropWhile_eq_Nil_conv [of isspace "rev t"] by simp
  ultimately show ?thesis
    by (simp add: rstrip_def)
next
  case False
  then obtain c where c: "c \<in> set (rev t)" "\<not> isspace c"
    by auto
  then have "dropWhile isspace (rev t @ [h]) = dropWhile isspace (rev t) @ [h]"
    by (rule dropWhile_append1)
  moreover have "dropWhile isspace (rev t) \<noteq> []"
    using c dropWhile_eq_Nil_conv [of isspace "rev t"] by blast
  ultimately show ?thesis
    by (simp add: rstrip_def)
qed

lemma lstrip_Nil [simp]: "lstrip [] = []"
  by (simp add: lstrip_def)

lemma lstrip_Cons: "lstrip (h # t) = (if isspace h then lstrip t else h # t)"
  by (simp add: lstrip_def)

lemma lstrip_rstrip: "lstrip (rstrip v) = rstrip (lstrip v)"
proof (induction v)
  case Nil
  then show ?case by simp
next
  case (Cons h t)
  show ?case
  proof (cases "isspace h")
    case True
    show ?thesis
    proof (cases "rstrip t = []")
      case True
      with Cons have "rstrip (lstrip t) = []"
        by simp
      with True \<open>isspace h\<close> show ?thesis
        by (simp add: rstrip_Cons lstrip_Cons)
    next
      case False
      with Cons \<open>isspace h\<close> show ?thesis
        by (simp add: rstrip_Cons lstrip_Cons)
    qed
  next
    case False
    then show ?thesis
      by (simp add: rstrip_Cons lstrip_Cons)
  qed
qed

lemma rstrip_idem [simp]: "rstrip (rstrip v) = rstrip v"
  by (simp add: rstrip_def)

lemma strip_rstrip [simp]: "strip (rstrip v) = strip v"
  by (simp add: strip_def lstrip_rstrip)

lemma rstrip_append:
  assumes "\<exists>c\<in>set b. \<not> isspace c"
  shows "rstrip (a @ b) = a @ rstrip b"
proof -
  from assms obtain c where "c \<in> set (rev b)" "\<not> isspace c"
    by auto
  then have "dropWhile isspace (rev b @ rev a) = dropWhile isspace (rev b) @ rev a"
    by (rule dropWhile_append1)
  then show ?thesis
    by (simp add: rstrip_def)
qed

lemma strip_nonempty: "strip v \<noteq> [] \<Longrightarrow> \<exists>c\<in>set v. \<not> isspace c"
  using strip_all_space [of v] by blast

lemma rstrip_prefix: "\<exists>r. v = rstrip v @ r"
proof -
  have "rev v = takeWhile isspace (rev v) @ dropWhile isspace (rev v)"
    by simp
  then have "v = rstrip v @ rev (takeWhile isspace (rev v))"
    unfolding rstrip_def by (metis rev_append rev_rev_ident)
  then show ?thesis ..
qed

lemma no_tag_rstrip: "\<not> has_tag (x @ v) \<Longrightarrow> \<not> has_tag (x @ rstrip v)"
proof -
  assume a: "\<not> has_tag (x @ v)"
  obtain r where "v = rstrip v @ r"
    using rstrip_prefix by blast
  then have "x @ v = (x @ rstrip v) @ r"
    by simp
  with a show ?thesis
    using has_tag_append_right [of "x @ rstrip v" r] by auto
qed

lemma is_code_chars: "is_code t \<Longrightarrow> t \<noteq> [] \<and> (\<forall>c\<in>set t. \<not> isspace c)"
  by (auto simp: is_code_cases upperAZ_not_space)

lemma has_tag_nonspace_prefix: "\<forall>c\<in>set t. \<not> isspace c \<Longrightarrow> has_tag (t @ s) = has_tag s"
proof (induction t)
  case Nil
  then show ?case by simp
next
  case (Cons c t)
  have "match_tag (c # t @ s) = None"
  proof (rule ccontr)
    assume "match_tag (c # t @ s) \<noteq> None"
    then have "isspace c"
      using match_tag_isspace_hd [of "c # t @ s"] by simp
    with Cons.prems show False by simp
  qed
  with Cons show ?case by simp
qed

lemma strip_tag_line: "isspace w \<Longrightarrow> is_code t \<Longrightarrow> strip (tag_line w t) = t"
  by (auto simp: is_code_cases tag_line_def strip_def lstrip_def rstrip_def upperAZ_not_space)

lemma lstrip_tag_line: "isspace w \<Longrightarrow> is_code t \<Longrightarrow> lstrip (tag_line w t @ s) = t @ LF # s"
  by (auto simp: is_code_cases tag_line_def lstrip_def upperAZ_not_space)

lemma assemble_append: "assemble w (ps @ qs) = assemble w ps @ assemble w qs"
  by (induction ps) auto

lemma rstrip_assemble:
  assumes "ps \<noteq> []" and "strip (snd (last ps)) \<noteq> []"
  shows "rstrip (x @ assemble w ps) = x @ assemble w (rstrip_last ps)"
proof -
  obtain t v where l: "last ps = (t, v)"
    by (cases "last ps") auto
  with assms(1) have ps: "ps = butlast ps @ [(t, v)]"
    by (metis append_butlast_last_id)
  have "x @ assemble w ps = (x @ assemble w (butlast ps) @ tag_line w t) @ v"
    by (subst ps) (simp add: assemble_append)
  moreover have "\<exists>c\<in>set v. \<not> isspace c"
    using assms(2) l strip_nonempty by simp
  ultimately have "rstrip (x @ assemble w ps) = (x @ assemble w (butlast ps) @ tag_line w t) @ rstrip v"
    using rstrip_append [of v "x @ assemble w (butlast ps) @ tag_line w t"] by simp
  then show ?thesis
    by (simp add: rstrip_last_def l assemble_append)
qed

lemma rstrip_last_single [simp]: "rstrip_last [p] = [(fst p, rstrip (snd p))]"
  by (simp add: rstrip_last_def)

lemma rstrip_last_Cons [simp]: "ps \<noteq> [] \<Longrightarrow> rstrip_last (p # ps) = p # rstrip_last ps"
  by (simp add: rstrip_last_def)

lemma map_trimmed_rstrip_last: "ps \<noteq> [] \<Longrightarrow> map trimmed (rstrip_last ps) = map trimmed ps"
  by (induction ps rule: list_nonempty_induct) (simp_all add: trimmed_def)

lemma joins_ok_rstrip_last:
  "ps \<noteq> [] \<Longrightarrow> \<forall>(t, v)\<in>set ps. is_code t \<and> \<not> has_tag (v @ [w]) \<Longrightarrow> \<not> has_tag (v0 @ [w]) \<Longrightarrow>
   joins_ok w v0 (rstrip_last ps)"
proof (induction ps arbitrary: v0 rule: list_nonempty_induct)
  case (single p)
  obtain t v where p: "p = (t, v)"
    by (cases p) auto
  with single have "\<not> has_tag ([] @ v)"
    using has_tag_append_right [of v "[w]"] by auto
  then have "\<not> has_tag (rstrip v)"
    using no_tag_rstrip [of "[]" v] by simp
  with single p show ?case
    by simp
next
  case (cons p ps)
  obtain t v where p: "p = (t, v)"
    by (cases p) auto
  with cons.prems have "\<not> has_tag (v @ [w])" "is_code t"
    by auto
  moreover have "joins_ok w v (rstrip_last ps)"
    using cons.IH [of v] cons.prems p by auto
  ultimately show ?case
    using cons.hyps cons.prems(2) by (simp add: p)
qed


lemma foldl_upd_map_of:
  "distinct (map fst ps) \<Longrightarrow> foldl put_trimmed d ps = d ++ map_of (map trimmed ps)"
proof (induction ps arbitrary: d)
  case Nil
  then show ?case by simp
next
  case (Cons p ps)
  have "fst p \<notin> dom (map_of (map trimmed ps))"
    using Cons.prems by (auto simp: dom_map_of_conv_image_fst trimmed_def image_iff)
  then have left: "d(fst p \<mapsto> strip (snd p)) ++ map_of (map trimmed ps)
             = (d ++ map_of (map trimmed ps))(fst p \<mapsto> strip (snd p))"
    by (rule map_add_upd_left)
  have a: "foldl put_trimmed d (p # ps) = foldl put_trimmed (put_trimmed d p) ps"
    by simp
  have b: "put_trimmed d p = d(fst p \<mapsto> strip (snd p))"
    by (simp add: put_trimmed_def)
  have c: "foldl put_trimmed (put_trimmed d p) ps = put_trimmed d p ++ map_of (map trimmed ps)"
    using Cons by simp
  have e: "d ++ map_of (map trimmed (p # ps))
           = (d ++ map_of (map trimmed ps))(fst p \<mapsto> strip (snd p))"
    by (simp add: trimmed_def)
  have "foldl put_trimmed d (p # ps) = put_trimmed d p ++ map_of (map trimmed ps)"
    by (simp only: a c)
  also have "\<dots> = d(fst p \<mapsto> strip (snd p)) ++ map_of (map trimmed ps)"
    by (simp only: b)
  also have "\<dots> = (d ++ map_of (map trimmed ps))(fst p \<mapsto> strip (snd p))"
    by (rule left)
  also have "\<dots> = d ++ map_of (map trimmed (p # ps))"
    by (rule e [symmetric])
  finally show ?case .
qed

lemma walk_segments:
  assumes "isspace w"
    and "\<forall>(t, v)\<in>set ps. is_code t \<and> t \<in> set fn \<and> \<not> match_HD v \<and> \<not> match_SE v \<and> \<not> has_tag v"
  shows "record_of (walk fn (k, val, d) (segments w ps)) = foldl put_trimmed d ps"
  using assms(2)
proof (induction ps arbitrary: k val d)
  case Nil
  then show ?case by simp
next
  case (Cons p ps)
  obtain t v where p: "p = (t, v)"
    by (cases p) auto
  with Cons.prems have t: "is_code t" "t \<in> set fn" and v: "\<not> match_HD v" "\<not> match_SE v" "\<not> has_tag v"
    by auto
  have m: "match_tag (tag_line w t) \<noteq> None"
    using match_tag_line [OF assms(1) t(1), of "[]"] by simp
  have s: "strip (tag_line w t) = t"
    using assms(1) t(1) by (rule strip_tag_line)
  have "step fn (step fn (k, val, d) (tag_line w t)) v = (t, strip v, put_trimmed d p)"
    using t(2) v by (simp add: step_tag [OF m] s step_text match_tag_None_if_no_tag p put_trimmed_def)
  moreover have "record_of (walk fn (t, strip v, put_trimmed d p) (segments w ps))
                 = foldl put_trimmed (put_trimmed d p) ps"
    using Cons.IH [of t "strip v" "put_trimmed d p"] Cons.prems by simp
  ultimately show ?case
    by (simp add: p)
qed

lemma step_first:
  assumes "t0 = py ''HD'' \<or> t0 = py ''SE''" and "t0 \<in> set fn"
  shows "step fn (k, val, d) (t0 @ LF # v) = (t0, strip v, d(t0 \<mapsto> strip v))"
proof -
  from assms(1) show ?thesis
  proof
    assume t0: "t0 = py ''HD''"
    then have "match_HD (t0 @ LF # v)" "drop 3 (t0 @ LF # v) = v"
      by (simp_all add: py_def)
    then show ?thesis
      using step_inline_HD [of "t0 @ LF # v" fn k val d] assms(2) t0 by simp
  next
    assume t0: "t0 = py ''SE''"
    then have "match_SE (t0 @ LF # v)" "drop 3 (t0 @ LF # v) = v"
      by (simp_all add: py_def)
    then show ?thesis
      using step_inline_SE [of "t0 @ LF # v" fn k val d] assms(2) t0 by simp
  qed
qed

lemma match_HD_append: "match_HD s \<Longrightarrow> match_HD (s @ r)"
  by (auto simp: match_HD_iff)

lemma match_SE_append: "match_SE s \<Longrightarrow> match_SE (s @ r)"
  by (auto simp: match_SE_iff)

lemma not_inline_rstrip: "\<not> match_HD v \<Longrightarrow> \<not> match_SE v \<Longrightarrow> \<not> match_HD (rstrip v) \<and> \<not> match_SE (rstrip v)"
  using rstrip_prefix [of v] match_HD_append [of "rstrip v"] match_SE_append [of "rstrip v"]
  by metis

lemma in_rstrip_last:
  "ps \<noteq> [] \<Longrightarrow> p \<in> set (rstrip_last ps) \<Longrightarrow>
   \<exists>v. (fst p, v) \<in> set ps \<and> (snd p = v \<or> snd p = rstrip v)"
proof (induction ps rule: list_nonempty_induct)
  case (single x)
  then show ?case by (cases x) auto
next
  case (cons x xs)
  then show ?case by (cases x) auto
qed


lemma plain_valueD:
  assumes "plain_value w v"
  shows "strip v \<noteq> []" "\<not> has_tag (LF # v @ [w])" "\<not> has_tag (v @ [w])" "\<not> has_tag (LF # v)"
    "\<not> has_tag v" "\<not> match_HD v" "\<not> match_SE v"
proof -
  show 1: "\<not> has_tag (LF # v @ [w])" and "strip v \<noteq> []" "\<not> match_HD v" "\<not> match_SE v"
    using assms by (simp_all add: plain_value_def)
  from 1 have "\<not> has_tag ([LF] @ (v @ [w]))"
    by simp
  then show 2: "\<not> has_tag (v @ [w])"
    using has_tag_append_left by blast
  from 1 have "\<not> has_tag ((LF # v) @ [w])"
    by simp
  then show "\<not> has_tag (LF # v)"
    using has_tag_append_right by blast
  from 2 show "\<not> has_tag v"
    using has_tag_append_right by blast
qed

lemma map_fst_rstrip_last: "ps \<noteq> [] \<Longrightarrow> map fst (rstrip_last ps) = map fst ps"
  by (induction ps rule: list_nonempty_induct) simp_all

text \<open>
  C1, as amended. Let \<open>w\<close> be a whitespace character and \<open>ps\<close> a non-empty list of
  pairs of a tag and a value, the tags distinct configured field codes, the first
  tag \<open>HD\<close> or \<open>SE\<close>, every value as \<open>plain_value\<close> says. Then the block of \<open>ps\<close> in the
  generic layout parses to exactly the mapping of every tag to its trimmed value.
  The first pair is found although \<open>doc.strip()\<close> removes the whitespace of its tag
  line, because its tag then meets the inline rule for \<open>HD\<close> and \<open>SE\<close>.
\<close>

theorem generic_layout_round_trip:
  assumes w: "isspace w"
    and ne: "ps \<noteq> []" and dist: "distinct (map fst ps)"
    and ok: "\<forall>(t, v)\<in>set ps. is_code t \<and> t \<in> set fn \<and> plain_value w v"
    and first: "fst (hd ps) = py ''HD'' \<or> fst (hd ps) = py ''SE''"
  shows "parse_block fn (assemble w ps) = Some (map_of (map trimmed ps))"
proof -
  from ne obtain t0 v0 rest where ps: "ps = (t0, v0) # rest"
    by (cases ps) auto
  from ok ps have t0: "is_code t0" "t0 \<in> set fn" and pv0: "plain_value w v0"
    by auto
  from first ps have f: "t0 = py ''HD'' \<or> t0 = py ''SE''"
    by simp
  define X where "X = t0 @ LF # v0"
  have ns0: "\<forall>c\<in>set t0. \<not> isspace c" and t0ne: "t0 \<noteq> []"
    using is_code_chars [OF t0(1)] by auto
  have l: "lstrip (assemble w ps) = X @ assemble w rest"
    using lstrip_tag_line [OF w t0(1), of "v0 @ assemble w rest"] by (simp add: ps X_def)
  have all: "map_of (map trimmed ps) = [t0 \<mapsto> strip v0] ++ map_of (map trimmed rest)"
  proof -
    have "foldl put_trimmed Map.empty ps = Map.empty ++ map_of (map trimmed ps)"
      using dist by (rule foldl_upd_map_of)
    moreover have "foldl put_trimmed Map.empty ps = foldl put_trimmed [t0 \<mapsto> strip v0] rest"
      by (simp add: ps put_trimmed_def)
    moreover have "foldl put_trimmed [t0 \<mapsto> strip v0] rest
                   = [t0 \<mapsto> strip v0] ++ map_of (map trimmed rest)"
      using dist by (intro foldl_upd_map_of) (simp add: ps)
    ultimately show ?thesis
      by simp
  qed
  show ?thesis
  proof (cases "rest = []")
    case True
    have "\<exists>c\<in>set v0. \<not> isspace c"
      using plain_valueD(1) [OF pv0] by (rule strip_nonempty)
    then have "rstrip ((t0 @ [LF]) @ v0) = (t0 @ [LF]) @ rstrip v0"
      by (rule rstrip_append)
    then have d: "strip (assemble w ps) = t0 @ LF # rstrip v0"
      by (simp add: strip_def l True X_def)
    have "\<not> has_tag ([LF] @ rstrip v0)"
      using plain_valueD(4) [OF pv0] by (intro no_tag_rstrip) simp
    then have "\<not> has_tag (t0 @ LF # rstrip v0)"
      using has_tag_nonspace_prefix [OF ns0, of "LF # rstrip v0"] by simp
    then have sp: "split_tag (t0 @ LF # rstrip v0) = [t0 @ LF # rstrip v0]"
      by (rule split_tag_no_tag)
    have "step fn init (t0 @ LF # rstrip v0) = (t0, strip (rstrip v0), [t0 \<mapsto> strip (rstrip v0)])"
      using f t0(2) by (rule step_first)
    then have "parse_doc fn (t0 @ LF # rstrip v0) = [t0 \<mapsto> strip v0]"
      by (simp add: parse_doc_def sp)
    then show ?thesis
      using t0ne by (simp add: parse_block_def d all True)
  next
    case False
    have inrest: "\<forall>(t, v)\<in>set rest. is_code t \<and> t \<in> set fn \<and> plain_value w v"
      using ok ps by simp
    have "last rest \<in> set rest"
      using False by simp
    with inrest have "strip (snd (last rest)) \<noteq> []"
      using plain_valueD(1) by (cases "last rest") fastforce
    then have "rstrip (X @ assemble w rest) = X @ assemble w (rstrip_last rest)"
      using False by (intro rstrip_assemble)
    then have d: "strip (assemble w ps) = X @ assemble w (rstrip_last rest)"
      by (simp add: strip_def l)
    have "\<not> has_tag (t0 @ (LF # v0 @ [w]))"
      using has_tag_nonspace_prefix [OF ns0, of "LF # v0 @ [w]"] plain_valueD(2) [OF pv0] by simp
    then have ntX: "\<not> has_tag (X @ [w])"
      by (simp add: X_def)
    have "\<forall>(t, v)\<in>set rest. is_code t \<and> \<not> has_tag (v @ [w])"
      using inrest plain_valueD(3) by fastforce
    with False have "joins_ok w X (rstrip_last rest)"
      using ntX by (intro joins_ok_rstrip_last)
    with w have sp: "split_tag (X @ assemble w (rstrip_last rest)) = X # segments w (rstrip_last rest)"
      by (rule split_tag_body)
    have okr: "\<forall>(t, v)\<in>set (rstrip_last rest).
                 is_code t \<and> t \<in> set fn \<and> \<not> match_HD v \<and> \<not> match_SE v \<and> \<not> has_tag v"
    proof (intro ballI, clarify)
      fix t v assume "(t, v) \<in> set (rstrip_last rest)"
      then obtain v' where v': "(t, v') \<in> set rest" "v = v' \<or> v = rstrip v'"
        using in_rstrip_last [OF False, of "(t, v)"] by auto
      with inrest have c: "is_code t" "t \<in> set fn" and pv: "plain_value w v'"
        by auto
      have "\<not> has_tag ([] @ rstrip v')"
        using plain_valueD(5) [OF pv] by (intro no_tag_rstrip) simp
      with v'(2) c show "is_code t \<and> t \<in> set fn \<and> \<not> match_HD v \<and> \<not> match_SE v \<and> \<not> has_tag v"
        using plain_valueD(5-7) [OF pv] not_inline_rstrip [of v'] by auto
    qed
    have stepX: "step fn init X = (t0, strip v0, [t0 \<mapsto> strip v0])"
      unfolding X_def using f t0(2) by (rule step_first)
    have "distinct (map fst (rstrip_last rest))"
      using dist False by (simp add: map_fst_rstrip_last ps)
    then have "foldl put_trimmed [t0 \<mapsto> strip v0] (rstrip_last rest)
               = [t0 \<mapsto> strip v0] ++ map_of (map trimmed (rstrip_last rest))"
      by (rule foldl_upd_map_of)
    then have "record_of (walk fn (t0, strip v0, [t0 \<mapsto> strip v0]) (segments w (rstrip_last rest)))
               = [t0 \<mapsto> strip v0] ++ map_of (map trimmed rest)"
      using walk_segments [OF w okr] False by (simp add: map_trimmed_rstrip_last)
    then have "parse_doc fn (X @ assemble w (rstrip_last rest)) = map_of (map trimmed ps)"
      by (simp add: parse_doc_def sp stepX all)
    moreover have "X @ assemble w (rstrip_last rest) \<noteq> []"
      using t0ne by (simp add: X_def)
    ultimately show ?thesis
      by (simp add: parse_block_def d)
  qed
qed

theorem generic_layout_round_trip_witness:
  "assemble LF [(py ''HD'', py ''Big news''), (py ''LA'', py ''English ''), (py ''WC'', py ''12 words'')] =
     py ''\<newline>HD\<newline>Big news\<newline>LA\<newline>English \<newline>WC\<newline>12 words'' \<and>
   parse_block fieldnames (py ''\<newline>HD\<newline>Big news\<newline>LA\<newline>English \<newline>WC\<newline>12 words'') =
     Some (map_of [(py ''HD'', py ''Big news''), (py ''LA'', py ''English''), (py ''WC'', py ''12 words'')])"
proof -
  let ?ps = "[(py ''HD'', py ''Big news''), (py ''LA'', py ''English ''), (py ''WC'', py ''12 words'')]"
  have a: "assemble LF ?ps = py ''\<newline>HD\<newline>Big news\<newline>LA\<newline>English \<newline>WC\<newline>12 words''"
    by (simp add: tag_line_def py_def)
  have w: "isspace LF"
    by simp
  have ne: "?ps \<noteq> []"
    by simp
  have dist: "distinct (map fst ?ps)"
    by (simp add: py_def)
  have codes: "is_code (py ''HD'')" "is_code (py ''LA'')" "is_code (py ''WC'')"
    by (simp_all add: is_code_def py_def upperAZ_def)
  have conf: "py ''HD'' \<in> set fieldnames" "py ''LA'' \<in> set fieldnames" "py ''WC'' \<in> set fieldnames"
    by (simp_all add: fieldnames_def py_def)
  have vals: "plain_value LF (py ''Big news'')" "plain_value LF (py ''English '')"
    "plain_value LF (py ''12 words'')"
    by (simp_all add: plain_value_def eval_simps)
  have ok: "\<forall>(t, v)\<in>set ?ps. is_code t \<and> t \<in> set fieldnames \<and> plain_value LF v"
    using codes conf vals by simp
  have first: "fst (hd ?ps) = py ''HD'' \<or> fst (hd ?ps) = py ''SE''"
    by simp
  have t: "map trimmed ?ps = [(py ''HD'', py ''Big news''), (py ''LA'', py ''English''), (py ''WC'', py ''12 words'')]"
    by (simp add: trimmed_def eval_simps)
  show ?thesis
    using generic_layout_round_trip [OF w ne dist ok first] unfolding a t by simp
qed

text \<open>
  C1 as stated fails for a first tag other than \<open>HD\<close> and \<open>SE\<close>: \<open>doc.strip()\<close> removes the
  whitespace before the first tag line, so \<open>WC\<close> is no tag boundary and meets no
  inline rule; its line and its value are free text under the key \<open>''\<close>, and the
  record has no \<open>WC\<close>.
\<close>

theorem generic_layout_first_pair_counterexample:
  "assemble LF [(py ''WC'', py ''12''), (py ''LA'', py ''English'')] = py ''\<newline>WC\<newline>12\<newline>LA\<newline>English'' \<and>
   py ''WC'' \<in> set fieldnames \<and> py ''LA'' \<in> set fieldnames \<and>
   \<not> has_tag (py ''12'') \<and> \<not> has_tag (py ''English'') \<and>
   parse_block fieldnames (py ''\<newline>WC\<newline>12\<newline>LA\<newline>English'') =
     Some (parse_doc fieldnames (py ''WC\<newline>12\<newline>LA\<newline>English'')) \<and>
   split_tag (py ''WC\<newline>12\<newline>LA\<newline>English'') = [py ''WC\<newline>12'', py ''\<newline>LA\<newline>'', py ''English''] \<and>
   parse_doc fieldnames (py ''WC\<newline>12\<newline>LA\<newline>English'') (py ''WC'') = None \<and>
   parse_doc fieldnames (py ''WC\<newline>12\<newline>LA\<newline>English'') (py ''LA'') = Some (py ''English'') \<and>
   map_of [(py ''WC'', py ''12''), (py ''LA'', py ''English'')] (py ''WC'') = Some (py ''12'')"
proof -
  let ?doc = "py ''WC\<newline>12\<newline>LA\<newline>English''"
  have 1: "assemble LF [(py ''WC'', py ''12''), (py ''LA'', py ''English'')] = py ''\<newline>WC\<newline>12\<newline>LA\<newline>English''"
    by (simp add: tag_line_def py_def)
  have 2: "py ''WC'' \<in> set fieldnames" "py ''LA'' \<in> set fieldnames"
    by (simp_all add: fieldnames_def py_def)
  have 3: "\<not> has_tag (py ''12'')" "\<not> has_tag (py ''English'')"
    by (simp_all add: eval_simps)
  have s: "strip (py ''\<newline>WC\<newline>12\<newline>LA\<newline>English'') = ?doc"
    by (simp add: eval_simps)
  have 4: "parse_block fieldnames (py ''\<newline>WC\<newline>12\<newline>LA\<newline>English'') = Some (parse_doc fieldnames ?doc)"
    unfolding parse_block_def s by (simp add: py_def)
  have 5: "split_tag ?doc = [py ''WC\<newline>12'', py ''\<newline>LA\<newline>'', py ''English'']"
    by (simp add: eval_simps)
  have 6: "parse_doc fieldnames ?doc (py ''WC'') = None"
    unfolding parse_doc_def 5 by (simp add: eval_simps step.simps classify.simps)
  have 7: "parse_doc fieldnames ?doc (py ''LA'') = Some (py ''English'')"
    unfolding parse_doc_def 5 by (simp add: eval_simps step.simps classify.simps)
  have 8: "map_of [(py ''WC'', py ''12''), (py ''LA'', py ''English'')] (py ''WC'') = Some (py ''12'')"
    by simp
  from 1 2 3 4 5 6 7 8 show ?thesis
    by blast
qed

text \<open>
  The conditions on the values are needed as well, also when the first tag is \<open>HD\<close>:
  a value that begins with the inline form is read as a headline; a value that
  ends in a space and capitals forms a tag boundary with the line feed of the next
  tag line; and a last value of whitespace only is removed by \<open>doc.strip()\<close> together
  with the line feed of its tag line, so that its tag is no boundary.
\<close>

lemma value_conditions_needed:
  "\<not> has_tag (py ''HD TV'') \<and>
   strip (assemble LF [(py ''HD'', py ''a''), (py ''LA'', py ''HD TV'')]) = py ''HD\<newline>a\<newline>LA\<newline>HD TV'' \<and>
   parse_doc fieldnames (py ''HD\<newline>a\<newline>LA\<newline>HD TV'') (py ''HD'') = Some (py ''TV'') \<and>
   parse_doc fieldnames (py ''HD\<newline>a\<newline>LA\<newline>HD TV'') (py ''LA'') = Some (py ''a'') \<and>
   \<not> has_tag (py ''x UK'') \<and>
   strip (assemble LF [(py ''HD'', py ''x UK''), (py ''LA'', py ''e'')]) = py ''HD\<newline>x UK\<newline>LA\<newline>e'' \<and>
   parse_doc fieldnames (py ''HD\<newline>x UK\<newline>LA\<newline>e'') (py ''HD'') = Some (py ''x'') \<and>
   parse_doc fieldnames (py ''HD\<newline>x UK\<newline>LA\<newline>e'') (py ''LA'') = None \<and>
   strip (assemble LF [(py ''HD'', py ''a''), (py ''LA'', py '' '')]) = py ''HD\<newline>a\<newline>LA'' \<and>
   parse_doc fieldnames (py ''HD\<newline>a\<newline>LA'') (py ''HD'') = Some (py ''a\<newline>LA'') \<and>
   parse_doc fieldnames (py ''HD\<newline>a\<newline>LA'') (py ''LA'') = None"
proof -
  have s1: "split_tag (py ''HD\<newline>a\<newline>LA\<newline>HD TV'') = [py ''HD\<newline>a'', py ''\<newline>LA\<newline>'', py ''HD TV'']"
    by (simp add: eval_simps)
  have s2: "split_tag (py ''HD\<newline>x UK\<newline>LA\<newline>e'') = [py ''HD\<newline>x'', py '' UK\<newline>'', py ''LA\<newline>e'']"
    by (simp add: eval_simps)
  have s3: "split_tag (py ''HD\<newline>a\<newline>LA'') = [py ''HD\<newline>a\<newline>LA'']"
    by (simp add: eval_simps)
  show ?thesis
    unfolding parse_doc_def s1 s2 s3
    by (simp add: eval_simps tag_line_def step.simps classify.simps)
qed

section \<open>The files of a directory and their order\<close>

lemma posix_split_dir:
  assumes "dir \<noteq> []" and "last dir \<noteq> SLASH" and "SLASH \<notin> set b"
  shows "posix_split (dir @ SLASH # b) = (dir, b)"
proof -
  have r: "rev (dir @ SLASH # b) = rev b @ SLASH # rev dir"
    by simp
  have nb: "\<And>x. x \<in> set (rev b) \<Longrightarrow> x \<noteq> SLASH"
    using assms(3) by auto
  have t: "takeWhile (\<lambda>c. c \<noteq> SLASH) (rev b @ SLASH # rev dir) = rev b"
    using takeWhile_append2 [of "rev b" "\<lambda>c. c \<noteq> SLASH" "SLASH # rev dir", OF nb] by simp
  have d: "dropWhile (\<lambda>c. c \<noteq> SLASH) (rev b @ SLASH # rev dir) = SLASH # rev dir"
    using dropWhile_append2 [of "rev b" "\<lambda>c. c \<noteq> SLASH" "SLASH # rev dir", OF nb] by simp
  have h: "hd (rev dir) \<noteq> SLASH" "rev dir \<noteq> []"
    using assms(1,2) by (simp_all add: hd_rev)
  then have s: "dropWhile (\<lambda>c. c = SLASH) (rev dir) = rev dir"
    by (cases "rev dir") auto
  have "\<exists>c\<in>set (dir @ [SLASH]). c \<noteq> SLASH"
    using assms(1,2) last_in_set by fastforce
  then show ?thesis
    unfolding posix_split_def r t d Let_def by (simp add: s)
qed

lemma fnmatch_literal: "STAR \<notin> set p \<Longrightarrow> fnmatch p n \<longleftrightarrow> p = n"
  by (induction p n rule: fnmatch.induct) auto

lemma fnmatch_star_literal: "STAR \<notin> set p \<Longrightarrow> fnmatch (STAR # p) n \<longleftrightarrow> suffix p n"
proof (induction n)
  case Nil
  then show ?case by (simp add: fnmatch_literal)
next
  case (Cons c cs)
  then show ?case
    by (auto simp: fnmatch_literal suffix_Cons)
qed

lemma posix_join_name:
  "dir \<noteq> [] \<Longrightarrow> last dir \<noteq> SLASH \<Longrightarrow> n \<noteq> [] \<Longrightarrow> SLASH \<notin> set n \<Longrightarrow>
   posix_join dir n = (dir @ [SLASH]) @ n"
  by (cases n) (auto simp: posix_join_def)

lemma iglob_directory:
  assumes "dir \<noteq> []" and "last dir \<noteq> SLASH" and "\<not> has_magic dir"
    and names: "\<forall>n\<in>set (listdir fs dir). n \<noteq> [] \<and> SLASH \<notin> set n"
  shows "iglob fs ((dir @ [SLASH]) @ py ''*.txt'') =
         Some (map ((@) (dir @ [SLASH]))
                 (filter (\<lambda>n. suffix (py ''.txt'') n \<and> \<not> ishidden n) (listdir fs dir)))"
proof -
  have sp: "posix_split ((dir @ [SLASH]) @ py ''*.txt'') = (dir, py ''*.txt'')"
    using posix_split_dir [OF assms(1,2), of "py ''*.txt''"] by (simp add: py_def)
  have pat: "py ''*.txt'' = STAR # py ''.txt''" "STAR \<notin> set (py ''.txt'')"
    "63 \<notin> set (py ''*.txt'')" "91 \<notin> set (py ''*.txt'')" "\<not> ishidden (py ''*.txt'')"
    by (simp_all add: py_def ishidden_def)
  have g: "glob1 fs dir (py ''*.txt'') =
           filter (\<lambda>n. suffix (py ''.txt'') n \<and> \<not> ishidden n) (listdir fs dir)"
    using assms(1) pat(5)
    by (simp add: glob1_def pat(1) fnmatch_star_literal [OF pat(2)] conj_commute)
  have j: "map (posix_join dir)
             (filter (\<lambda>n. suffix (py ''.txt'') n \<and> \<not> ishidden n) (listdir fs dir)) =
           map ((@) (dir @ [SLASH]))
             (filter (\<lambda>n. suffix (py ''.txt'') n \<and> \<not> ishidden n) (listdir fs dir))"
    using names posix_join_name [OF assms(1,2)] by (intro map_cong) auto
  have "STAR \<in> set (py ''*.txt'')"
    by (simp add: pat(1))
  then have "iglob fs ((dir @ [SLASH]) @ py ''*.txt'') =
             Some (map (posix_join dir) (glob1 fs dir (py ''*.txt'')))"
    using assms(1,3) pat(3,4) unfolding iglob_def sp by simp
  then show ?thesis
    by (simp only: g j)
qed

lemma append_le_append: "p @ a \<le> p @ b \<longleftrightarrow> a \<le> (b :: ustring)"
  by (induction p) simp_all

lemma sort_map_prefix: "sort (map ((@) p) xs) = map ((@) p) (sort (xs :: ustring list))"
proof (rule properties_for_sort)
  show "mset (map ((@) p) (sort xs)) = mset (map ((@) p) xs)"
    by simp
  have "sorted_wrt (\<lambda>x y. p @ x \<le> p @ y) (sort xs)"
    using sorted_sort [of xs] by (simp add: append_le_append)
  then show "sorted (map ((@) p) (sort xs))"
    by (simp add: sorted_map)
qed

lemma load_file_rows:
  "load_file fn df t = Inr df' \<Longrightarrow> columns df = fn \<Longrightarrow>
   rows df' = rows df @ text_rows fn t \<and> columns df' = fn"
  by (auto simp: load_file_def text_rows_def rows_loop_docs split: sum.splits)

lemma loop_files_rows:
  "loop_files fn read_file df files = Inr df' \<Longrightarrow> columns df = fn \<Longrightarrow>
   rows df' = rows df @ concat (map (file_rows fn read_file) files)"
proof (induction files arbitrary: df)
  case Nil
  then show ?case by simp
next
  case (Cons f files)
  from Cons.prems(1) obtain t df1 where r: "read_file f = Inr t" and l: "load_file fn df t = Inr df1"
    and rest: "loop_files fn read_file df1 files = Inr df'"
    by (auto split: sum.splits)
  from l Cons.prems(2) have 1: "rows df1 = rows df @ text_rows fn t" "columns df1 = fn"
    using load_file_rows by blast+
  from Cons.IH [OF rest 1(2)] show ?case
    by (simp add: 1 file_rows_def r)
qed

text \<open>
  C9, as amended. Let the path be a directory name without wildcard characters
  followed by one slash, and let \<open>glob\<close> answer as the model of \<open>glob.iglob\<close> does on the
  file system. Then the loader enumerates exactly the entries of that directory
  whose names end in \<open>.txt\<close> and do not begin with a dot; it processes them in the
  sorted order of their names, which is the sorted order of their paths; the rows
  of the table are the rows of the files in that order, so all rows of \<open>a.txt\<close> come
  before all rows of \<open>b.txt\<close>; and the order is the same for every order in which the
  system lists the same files.
\<close>

theorem sorted_file_order:
  assumes dir: "dir \<noteq> []" "last dir \<noteq> SLASH" "\<not> has_magic dir" and path: "path = dir @ [SLASH]"
    and names: "\<forall>n\<in>set (listdir fs dir). n \<noteq> [] \<and> SLASH \<notin> set n"
    and glob: "iglob fs (path @ py ''*.txt'') = Some (glob (path @ py ''*.txt''))"
    and run: "factiva_to_df fn glob read_file path = Inr df"
  shows "glob (path @ py ''*.txt'') =
           map ((@) path) (filter (\<lambda>n. suffix (py ''.txt'') n \<and> \<not> ishidden n) (listdir fs dir)) \<and>
         sort (glob (path @ py ''*.txt'')) =
           map ((@) path) (sort (filter (\<lambda>n. suffix (py ''.txt'') n \<and> \<not> ishidden n) (listdir fs dir))) \<and>
         rows df = concat (map (file_rows fn read_file) (sort (glob (path @ py ''*.txt'')))) \<and>
         (\<forall>files. mset files = mset (glob (path @ py ''*.txt'')) \<longrightarrow>
            sort files = sort (glob (path @ py ''*.txt'')))"
proof (intro conjI allI impI)
  show g: "glob (path @ py ''*.txt'') =
           map ((@) path) (filter (\<lambda>n. suffix (py ''.txt'') n \<and> \<not> ishidden n) (listdir fs dir))"
    using iglob_directory [OF dir names] glob unfolding path by simp
  show "sort (glob (path @ py ''*.txt'')) =
           map ((@) path) (sort (filter (\<lambda>n. suffix (py ''.txt'') n \<and> \<not> ishidden n) (listdir fs dir)))"
    unfolding g by (rule sort_map_prefix)
  have "loop_files fn read_file (DataFrame fn) (sort (glob (path @ py ''*.txt''))) = Inr df"
    using run by (simp add: factiva_to_df_def)
  then show "rows df = concat (map (file_rows fn read_file) (sort (glob (path @ py ''*.txt''))))"
    using loop_files_rows [of fn read_file "DataFrame fn" _ df] by (simp add: DataFrame_def)
next
  fix files assume "mset files = mset (glob (path @ py ''*.txt''))"
  then have "mset (sort (glob (path @ py ''*.txt''))) = mset files"
    by simp
  then show "sort files = sort (glob (path @ py ''*.txt''))"
    by (rule properties_for_sort) simp
qed

text \<open>The equations that evaluate \<open>glob\<close> on the example.\<close>

lemmas fs_eval = iglob_def glob1_def posix_split_def posix_join_def listdir_def has_magic_def
  ishidden_def example_fs_def py_def

theorem sorted_file_order_witness:
  "iglob example_fs (py ''rtfs/'' @ py ''*.txt'') = Some [py ''rtfs/b.txt'', py ''rtfs/a.txt''] \<and>
   sort [py ''rtfs/b.txt'', py ''rtfs/a.txt''] = [py ''rtfs/a.txt'', py ''rtfs/b.txt''] \<and>
   factiva_to_df [py ''HD''] (\<lambda>pat. [py ''rtfs/b.txt'', py ''rtfs/a.txt''])
     (\<lambda>f. if f = py ''rtfs/a.txt'' then Inr (py ''HD from a'') else Inr (py ''HD from b''))
     (py ''rtfs/'') =
     Inr \<lparr>columns = [py ''HD''], rows = [[Some (py ''from a'')], [Some (py ''from b'')]]\<rparr> \<and>
   concat (map (file_rows [py ''HD'']
        (\<lambda>f. if f = py ''rtfs/a.txt'' then Inr (py ''HD from a'') else Inr (py ''HD from b'')))
      [py ''rtfs/a.txt'', py ''rtfs/b.txt'']) = [[Some (py ''from a'')], [Some (py ''from b'')]]"
proof -
  let ?glob = "\<lambda>pat :: ustring. [py ''rtfs/b.txt'', py ''rtfs/a.txt'']"
  let ?read = "\<lambda>f. if f = py ''rtfs/a.txt'' then Inr (py ''HD from a'') else Inr (py ''HD from b'') :: py_error + ustring"
  let ?df = "\<lparr>columns = [py ''HD''], rows = [[Some (py ''from a'')], [Some (py ''from b'')]]\<rparr>"
  have dir: "py ''rtfs'' \<noteq> []" "last (py ''rtfs'') \<noteq> SLASH" "\<not> has_magic (py ''rtfs'')"
    by (simp_all add: py_def has_magic_def)
  have path: "py ''rtfs/'' = py ''rtfs'' @ [SLASH]"
    by (simp add: py_def)
  have names: "\<forall>n\<in>set (listdir example_fs (py ''rtfs'')). n \<noteq> [] \<and> SLASH \<notin> set n"
    by (simp add: listdir_def example_fs_def py_def)
  have g: "iglob example_fs (py ''rtfs/'' @ py ''*.txt'') = Some [py ''rtfs/b.txt'', py ''rtfs/a.txt'']"
    by (simp add: fs_eval)
  have s: "sort [py ''rtfs/b.txt'', py ''rtfs/a.txt''] = [py ''rtfs/a.txt'', py ''rtfs/b.txt'']"
    by (simp add: py_def)
  have run: "factiva_to_df [py ''HD''] ?glob ?read (py ''rtfs/'') = Inr ?df"
    unfolding factiva_to_df_def Let_def s
    by (simp add: DataFrame_def load_file_def load_text_def search_sum_def
        sep_def parse_block_def parse_doc_def loc_append_def step.simps classify.simps
        py_def match_tag_def isspace_def upperAZ_def strip_def lstrip_def rstrip_def)
  have prem: "iglob example_fs (py ''rtfs/'' @ py ''*.txt'') = Some (?glob (py ''rtfs/'' @ py ''*.txt''))"
    using g by simp
  have "rows ?df = concat (map (file_rows [py ''HD''] ?read) (sort (?glob (py ''rtfs/'' @ py ''*.txt''))))"
    using sorted_file_order [where fs = example_fs and glob = ?glob, OF dir path names prem run]
    by blast
  then have "rows ?df = concat (map (file_rows [py ''HD''] ?read) [py ''rtfs/a.txt'', py ''rtfs/b.txt''])"
    by (simp only: s)
  then have r: "concat (map (file_rows [py ''HD''] ?read) [py ''rtfs/a.txt'', py ''rtfs/b.txt''])
                = [[Some (py ''from a'')], [Some (py ''from b'')]]"
    by (simp only: dataframe.select_convs)
  show ?thesis
    by (intro conjI) (fact g s run r)+
qed

text \<open>
  C9 as stated fails. The pattern is \<open>path + "*.txt"\<close>: for the directory path \<open>rtfs\<close>,
  without a slash at its end, it is \<open>rtfs*.txt\<close>, which matches \<open>rtfs_old.txt\<close> beside the
  directory and nothing inside it. With the slash, the entry \<open>.x.txt\<close> of the
  directory has the extension and is not enumerated, since \<open>*\<close> matches no hidden
  entry.
\<close>

theorem directory_glob_counterexample:
  "listdir example_fs (py ''rtfs'') = [py ''b.txt'', py ''.x.txt'', py ''a.txt'', py ''notes.rtf''] \<and>
   iglob example_fs (py ''rtfs'' @ py ''*.txt'') = Some [py ''rtfs_old.txt''] \<and>
   iglob example_fs (py ''rtfs/'' @ py ''*.txt'') = Some [py ''rtfs/b.txt'', py ''rtfs/a.txt'']"
  by (simp add: fs_eval)

end
